theory Spec2Isabelle
  imports Main "HOL-Library.Word" "HOL-Library.Sublist"
begin

section \<open>JavaScript strings\<close>

text \<open>
  A JavaScript string is a sequence of UTF-16 code units; \<open>length\<close> is the
  \<^verbatim>\<open>.length\<close> of the program.  \<open>js\<close> turns an ASCII literal into such a string.
\<close>

type_synonym jchar = "16 word"
type_synonym jstr = "jchar list"

definition js :: "string \<Rightarrow> jstr" where
  "js s = map (\<lambda>c. of_nat (of_char c)) s"

text \<open>\<^verbatim>\<open>String.prototype.trim\<close> strips WhiteSpace and LineTerminator code points.\<close>

definition is_ws :: "jchar \<Rightarrow> bool" where
  "is_ws c \<longleftrightarrow>
     c \<in> set [0x9, 0xA, 0xB, 0xC, 0xD, 0x20, 0xA0, 0x1680, 0x2028, 0x2029, 0x202F, 0x205F, 0x3000, 0xFEFF]
     \<or> (0x2000 \<le> c \<and> c \<le> 0x200A)"

definition trim :: "jstr \<Rightarrow> jstr" where
  "trim s = rev (dropWhile is_ws (rev (dropWhile is_ws s)))"

text \<open>\<^verbatim>\<open>s.split(c)\<close> for a one-character separator, and \<^verbatim>\<open>parts.join(sep)\<close>.\<close>

fun split_on :: "jchar \<Rightarrow> jstr \<Rightarrow> jstr list" where
  "split_on c [] = [[]]"
| "split_on c (x # xs) =
     (if x = c then [] # split_on c xs
      else (case split_on c xs of p # ps \<Rightarrow> (x # p) # ps | [] \<Rightarrow> [[x]]))"

fun join :: "jstr \<Rightarrow> jstr list \<Rightarrow> jstr" where
  "join sep [] = []"
| "join sep [p] = p"
| "join sep (p # q # ps) = p @ sep @ join sep (q # ps)"

section \<open>JSON values and JavaScript coercions\<close>

text \<open>
  The values the program handles are the JSON-representable ones.  An object is its
  list of own properties in property order; numbers are the integers (floating point
  is outside this embedding).  \<open>None\<close> of type \<open>json option\<close> is \<^verbatim>\<open>undefined\<close>.
\<close>

datatype json =
    JNull
  | JBool bool
  | JNum int
  | JStr jstr
  | JArr "json list"
  | JObj "(jstr \<times> json) list"

definition digit_char :: "nat \<Rightarrow> jchar" where
  "digit_char d = of_nat (48 + d)"

fun show_nat :: "nat \<Rightarrow> jstr" where
  "show_nat n = (if n < 10 then [digit_char n] else show_nat (n div 10) @ [digit_char (n mod 10)])"

declare show_nat.simps [simp del]

definition show_int :: "int \<Rightarrow> jstr" where
  "show_int i = (if i < 0 then 0x2D # show_nat (nat (- i)) else show_nat (nat i))"

text \<open>\<^verbatim>\<open>Boolean(v)\<close> and \<^verbatim>\<open>String(v)\<close>.\<close>

fun truthy :: "json \<Rightarrow> bool" where
  "truthy JNull = False"
| "truthy (JBool b) = b"
| "truthy (JNum n) = (n \<noteq> 0)"
| "truthy (JStr s) = (s \<noteq> [])"
| "truthy (JArr _) = True"
| "truthy (JObj _) = True"

fun to_string :: "json \<Rightarrow> jstr" where
  "to_string JNull = js ''null''"
| "to_string (JBool b) = (if b then js ''true'' else js ''false'')"
| "to_string (JNum n) = show_int n"
| "to_string (JStr s) = s"
| "to_string (JArr xs) = join (js '','') (map (\<lambda>x. if x = JNull then [] else to_string x) xs)"
| "to_string (JObj _) = js ''[object Object]''"

text \<open>\<^verbatim>\<open>Boolean(v)\<close> of a possibly undefined value.\<close>

definition truthy_opt :: "json option \<Rightarrow> bool" where
  "truthy_opt v = (case v of None \<Rightarrow> False | Some x \<Rightarrow> truthy x)"

section \<open>Field helpers of server.js\<close>

definition asTrimmedString :: "json option \<Rightarrow> jstr" where
  "asTrimmedString v = trim (case v of None \<Rightarrow> [] | Some JNull \<Rightarrow> [] | Some x \<Rightarrow> to_string x)"

definition normalizeArray :: "json option \<Rightarrow> json list" where
  "normalizeArray v =
     (case v of None \<Rightarrow> [] | Some JNull \<Rightarrow> [] | Some (JArr xs) \<Rightarrow> xs | Some x \<Rightarrow> [x])"

definition parseEnabled :: "json option \<Rightarrow> bool" where
  "parseEnabled v = (js ''1'' \<in> set (map (\<lambda>x. trim (to_string x)) (normalizeArray v)))"

text \<open>The optional \<^verbatim>\<open>max\<close> argument is \<open>Some m\<close> when it is a number.\<close>

definition slice_max :: "nat option \<Rightarrow> 'a list \<Rightarrow> 'a list" where
  "slice_max mx xs = (case mx of Some m \<Rightarrow> take m xs | None \<Rightarrow> xs)"

definition splitLines :: "json option \<Rightarrow> nat option \<Rightarrow> jstr list" where
  "splitLines v mx =
     (let raw = asTrimmedString v in
      if raw = [] then []
      else slice_max mx (filter (\<lambda>l. l \<noteq> []) (map trim (split_on 0x0A raw))))"

definition splitCsv :: "json option \<Rightarrow> nat option \<Rightarrow> jstr list" where
  "splitCsv v mx =
     (let raw = asTrimmedString v in
      if raw = [] then []
      else slice_max mx (filter (\<lambda>p. p \<noteq> []) (map trim (split_on 0x2C raw))))"





section \<open>JSON.stringify\<close>

definition hex_digit :: "nat \<Rightarrow> jchar" where
  "hex_digit d = (if d < 10 then of_nat (48 + d) else of_nat (87 + d))"

definition uescape :: "jchar \<Rightarrow> jstr" where
  "uescape c =
     [0x5C, 0x75, hex_digit (unat c div 4096), hex_digit (unat c div 256 mod 16),
      hex_digit (unat c div 16 mod 16), hex_digit (unat c mod 16)]"

definition is_high_surrogate :: "jchar \<Rightarrow> bool" where
  "is_high_surrogate c \<longleftrightarrow> 0xD800 \<le> c \<and> c \<le> 0xDBFF"

definition is_low_surrogate :: "jchar \<Rightarrow> bool" where
  "is_low_surrogate c \<longleftrightarrow> 0xDC00 \<le> c \<and> c \<le> 0xDFFF"

definition quote_unit :: "jchar \<Rightarrow> jstr" where
  "quote_unit c =
     (if c = 0x08 then [0x5C, 0x62]
      else if c = 0x09 then [0x5C, 0x74]
      else if c = 0x0A then [0x5C, 0x6E]
      else if c = 0x0C then [0x5C, 0x66]
      else if c = 0x0D then [0x5C, 0x72]
      else if c = 0x22 then [0x5C, 0x22]
      else if c = 0x5C then [0x5C, 0x5C]
      else if c < 0x20 \<or> is_high_surrogate c \<or> is_low_surrogate c then uescape c
      else [c])"

fun quote_units :: "jstr \<Rightarrow> jstr" where
  "quote_units [] = []"
| "quote_units [c] = quote_unit c"
| "quote_units (c # d # cs) =
     (if is_high_surrogate c \<and> is_low_surrogate d then c # d # quote_units cs
      else quote_unit c @ quote_units (d # cs))"

definition quote :: "jstr \<Rightarrow> jstr" where
  "quote s = 0x22 # quote_units s @ [0x22]"

definition indent :: "nat \<Rightarrow> jstr" where
  "indent n = replicate n 0x20"

fun ser :: "nat \<Rightarrow> json \<Rightarrow> jstr" where
  "ser n JNull = js ''null''"
| "ser n (JBool b) = (if b then js ''true'' else js ''false'')"
| "ser n (JNum i) = show_int i"
| "ser n (JStr s) = quote s"
| "ser n (JArr xs) =
     (if xs = [] then js ''[]''
      else [0x5B, 0x0A] @ join [0x2C, 0x0A] (map (\<lambda>x. indent (n + 2) @ ser (n + 2) x) xs)
           @ [0x0A] @ indent n @ [0x5D])"
| "ser n (JObj kvs) =
     (if kvs = [] then js ''{}''
      else [0x7B, 0x0A]
           @ join [0x2C, 0x0A]
               (map (\<lambda>kv. indent (n + 2) @ quote (fst kv) @ [0x3A, 0x20] @ ser (n + 2) (snd kv)) kvs)
           @ [0x0A] @ indent n @ [0x7D])"

definition JSON_stringify :: "json \<Rightarrow> jstr" where
  "JSON_stringify v = ser 0 v"

section \<open>JSON.parse\<close>

definition is_json_ws :: "jchar \<Rightarrow> bool" where
  "is_json_ws c \<longleftrightarrow> c = 0x20 \<or> c = 0x09 \<or> c = 0x0A \<or> c = 0x0D"

definition skip_ws :: "jstr \<Rightarrow> jstr" where
  "skip_ws s = dropWhile is_json_ws s"

definition hex_val :: "jchar \<Rightarrow> nat option" where
  "hex_val c =
     (if 0x30 \<le> c \<and> c \<le> 0x39 then Some (unat c - 48)
      else if 0x61 \<le> c \<and> c \<le> 0x66 then Some (unat c - 87)
      else if 0x41 \<le> c \<and> c \<le> 0x46 then Some (unat c - 55)
      else None)"

definition hex4 :: "jchar \<Rightarrow> jchar \<Rightarrow> jchar \<Rightarrow> jchar \<Rightarrow> jchar option" where
  "hex4 h1 h2 h3 h4 =
     (case (hex_val h1, hex_val h2, hex_val h3, hex_val h4) of
        (Some a, Some b, Some c, Some d) \<Rightarrow> Some (of_nat (((a * 16 + b) * 16 + c) * 16 + d))
      | _ \<Rightarrow> None)"

definition unescape :: "jchar \<Rightarrow> jchar option" where
  "unescape e =
     (if e = 0x22 then Some 0x22
      else if e = 0x5C then Some 0x5C
      else if e = 0x2F then Some 0x2F
      else if e = 0x62 then Some 0x08
      else if e = 0x66 then Some 0x0C
      else if e = 0x6E then Some 0x0A
      else if e = 0x72 then Some 0x0D
      else if e = 0x74 then Some 0x09
      else None)"

definition cons_result :: "'a \<Rightarrow> ('a list \<times> jstr) option \<Rightarrow> ('a list \<times> jstr) option" where
  "cons_result x r = (case r of None \<Rightarrow> None | Some (xs, rest) \<Rightarrow> Some (x # xs, rest))"

fun parse_str :: "jstr \<Rightarrow> (jstr \<times> jstr) option" where
  "parse_str [] = None"
| "parse_str (c # cs) =
     (if c = 0x22 then Some ([], cs)
      else if c = 0x5C then
        (case cs of
           [] \<Rightarrow> None
         | e # es \<Rightarrow>
             if e = 0x75 then
               (case es of
                  h1 # h2 # h3 # h4 # r \<Rightarrow>
                    (case hex4 h1 h2 h3 h4 of
                       None \<Rightarrow> None
                     | Some u \<Rightarrow> cons_result u (parse_str r))
                | _ \<Rightarrow> None)
             else
               (case unescape e of
                  None \<Rightarrow> None
                | Some u \<Rightarrow> cons_result u (parse_str es)))
      else if c < 0x20 then None
      else cons_result c (parse_str cs))"

definition is_digit :: "jchar \<Rightarrow> bool" where
  "is_digit c \<longleftrightarrow> 0x30 \<le> c \<and> c \<le> 0x39"

fun parse_digits :: "jstr \<Rightarrow> nat \<Rightarrow> nat \<times> jstr" where
  "parse_digits [] acc = (acc, [])"
| "parse_digits (c # cs) acc =
     (if is_digit c then parse_digits cs (acc * 10 + (unat c - 48)) else (acc, c # cs))"

definition parse_nat :: "jstr \<Rightarrow> (nat \<times> jstr) option" where
  "parse_nat s =
     (case s of
        [] \<Rightarrow> None
      | c # cs \<Rightarrow>
          if c = 0x30 then Some (0, cs)
          else if is_digit c then Some (parse_digits cs (unat c - 48))
          else None)"

definition float_follows :: "jstr \<Rightarrow> bool" where
  "float_follows r = (case r of [] \<Rightarrow> False | c # _ \<Rightarrow> c = 0x2E \<or> c = 0x65 \<or> c = 0x45)"

definition parse_number :: "jstr \<Rightarrow> (json \<times> jstr) option" where
  "parse_number s =
     (case (case s of
              [] \<Rightarrow> None
            | c # cs \<Rightarrow>
                if c = 0x2D then map_option (\<lambda>(n, r). (- int n, r)) (parse_nat cs)
                else map_option (\<lambda>(n, r). (int n, r)) (parse_nat s)) of
        None \<Rightarrow> None
      | Some (i, r) \<Rightarrow> if float_follows r then None else Some (JNum i, r))"

definition parse_literal :: "jstr \<Rightarrow> (json \<times> jstr) option" where
  "parse_literal s =
     (if take 4 s = js ''true'' then Some (JBool True, drop 4 s)
      else if take 5 s = js ''false'' then Some (JBool False, drop 5 s)
      else if take 4 s = js ''null'' then Some (JNull, drop 4 s)
      else parse_number s)"

fun obj_set :: "(jstr \<times> json) list \<Rightarrow> jstr \<Rightarrow> json \<Rightarrow> (jstr \<times> json) list" where
  "obj_set [] k v = [(k, v)]"
| "obj_set ((k', v') # kvs) k v = (if k' = k then (k, v) # kvs else (k', v') # obj_set kvs k v)"

definition obj_of_members :: "(jstr \<times> json) list \<Rightarrow> json" where
  "obj_of_members ms = JObj (foldl (\<lambda>obj kv. obj_set obj (fst kv) (snd kv)) [] ms)"

fun parse_value :: "nat \<Rightarrow> jstr \<Rightarrow> (json \<times> jstr) option"
  and parse_elems :: "nat \<Rightarrow> jstr \<Rightarrow> (json list \<times> jstr) option"
  and parse_members :: "nat \<Rightarrow> jstr \<Rightarrow> ((jstr \<times> json) list \<times> jstr) option"
where
  "parse_value 0 s = None"
| "parse_value (Suc f) s =
     (case skip_ws s of
        [] \<Rightarrow> None
      | c # cs \<Rightarrow>
          if c = 0x22 then map_option (\<lambda>(t, r). (JStr t, r)) (parse_str cs)
          else if c = 0x5B then
            (if take 1 (skip_ws cs) = [0x5D] then Some (JArr [], drop 1 (skip_ws cs))
             else map_option (\<lambda>(xs, r). (JArr xs, r)) (parse_elems f cs))
          else if c = 0x7B then
            (if take 1 (skip_ws cs) = [0x7D] then Some (JObj [], drop 1 (skip_ws cs))
             else map_option (\<lambda>(ms, r). (obj_of_members ms, r)) (parse_members f cs))
          else parse_literal (c # cs))"
| "parse_elems 0 s = None"
| "parse_elems (Suc f) s =
     (case parse_value f s of
        None \<Rightarrow> None
      | Some (x, r) \<Rightarrow>
          (case skip_ws r of
             [] \<Rightarrow> None
           | c # cs \<Rightarrow>
               if c = 0x2C then cons_result x (parse_elems f cs)
               else if c = 0x5D then Some ([x], cs)
               else None))"
| "parse_members 0 s = None"
| "parse_members (Suc f) s =
     (case skip_ws s of
        [] \<Rightarrow> None
      | q # s1 \<Rightarrow>
          if q \<noteq> 0x22 then None
          else
            (case parse_str s1 of
               None \<Rightarrow> None
             | Some (k, s2) \<Rightarrow>
                 (case skip_ws s2 of
                    [] \<Rightarrow> None
                  | colon # s3 \<Rightarrow>
                      if colon \<noteq> 0x3A then None
                      else
                        (case parse_value f s3 of
                           None \<Rightarrow> None
                         | Some (v, s4) \<Rightarrow>
                             (case skip_ws s4 of
                                [] \<Rightarrow> None
                              | c # cs \<Rightarrow>
                                  if c = 0x2C then cons_result (k, v) (parse_members f cs)
                                  else if c = 0x7D then Some ([(k, v)], cs)
                                  else None)))))"

definition JSON_parse :: "jstr \<Rightarrow> json option" where
  "JSON_parse s =
     (case parse_value (Suc (length s)) s of
        None \<Rightarrow> None
      | Some (v, r) \<Rightarrow> if skip_ws r = [] then Some v else None)"

text \<open>
  A value is well formed when no object has two properties of the same name.  \<open>fuel_of\<close>
  bounds the recursion depth that \<open>parse_value\<close> needs to read a value back.
\<close>

fun wf_json :: "json \<Rightarrow> bool" where
  "wf_json (JArr xs) = (\<forall>x \<in> set xs. wf_json x)"
| "wf_json (JObj kvs) = (distinct (map fst kvs) \<and> (\<forall>kv \<in> set kvs. wf_json (snd kv)))"
| "wf_json _ = True"

fun fuel_of :: "json \<Rightarrow> nat" where
  "fuel_of (JArr xs) = Suc (sum_list (map (\<lambda>x. Suc (fuel_of x)) xs))"
| "fuel_of (JObj kvs) = Suc (sum_list (map (\<lambda>kv. Suc (fuel_of (snd kv))) kvs))"
| "fuel_of _ = 1"

text \<open>Notions used to state how the parser meets the printer.\<close>

definition digits_value :: "nat \<Rightarrow> jstr \<Rightarrow> nat" where
  "digits_value acc ds = foldl (\<lambda>a c. a * 10 + (unat c - 48)) acc ds"

definition number_end :: "jstr \<Rightarrow> bool" where
  "number_end rest \<longleftrightarrow> rest = [] \<or> hd rest = 0x2C \<or> hd rest = 0x0A"

definition value_start :: "jchar \<Rightarrow> bool" where
  "value_start c \<longleftrightarrow> \<not> is_json_ws c \<and> c \<noteq> 0x5D \<and> c \<noteq> 0x7D"

section \<open>The file system\<close>

type_synonym path = jstr

datatype io_error = ENOENT | EACCES | EISDIR | ENOSPC | EIO

datatype js_error = IOError io_error | SyntaxError

datatype fs_call = Mkdir path | WriteFile path | Rename path path | ReadFile path

record fs =
  files :: "path \<rightharpoonup> jstr"
  fault :: "fs_call \<Rightarrow> io_error option"

definition fs_mkdir :: "fs \<Rightarrow> path \<Rightarrow> io_error + fs" where
  "fs_mkdir s d = (case fault s (Mkdir d) of Some e \<Rightarrow> Inl e | None \<Rightarrow> Inr s)"

definition fs_writeFile :: "fs \<Rightarrow> path \<Rightarrow> jstr \<Rightarrow> io_error + fs" where
  "fs_writeFile s p c =
     (case fault s (WriteFile p) of
        Some e \<Rightarrow> Inl e
      | None \<Rightarrow> Inr (s\<lparr>files := (files s)(p \<mapsto> c)\<rparr>))"

definition fs_rename :: "fs \<Rightarrow> path \<Rightarrow> path \<Rightarrow> io_error + fs" where
  "fs_rename s a b =
     (case fault s (Rename a b) of
        Some e \<Rightarrow> Inl e
      | None \<Rightarrow>
          (case files s a of
             None \<Rightarrow> Inl ENOENT
           | Some c \<Rightarrow> Inr (s\<lparr>files := ((files s)(a := None))(b \<mapsto> c)\<rparr>)))"

definition fs_readFile :: "fs \<Rightarrow> path \<Rightarrow> io_error + jstr" where
  "fs_readFile s p =
     (case fault s (ReadFile p) of
        Some e \<Rightarrow> Inl e
      | None \<Rightarrow> (case files s p of None \<Rightarrow> Inl ENOENT | Some c \<Rightarrow> Inr c))"

definition dirname :: "path \<Rightarrow> path" where
  "dirname p =
     (case p of
        [] \<Rightarrow> js ''.''
      | c # t \<Rightarrow>
          let r = dropWhile (\<lambda>x. x \<noteq> 0x2F) (dropWhile (\<lambda>x. x = 0x2F) (rev t))
          in if r = [] then (if c = 0x2F then [0x2F] else js ''.'')
             else if c = 0x2F \<and> length r = 1 then [0x2F, 0x2F]
             else c # rev (tl r))"

definition readJson :: "fs \<Rightarrow> path \<Rightarrow> json \<Rightarrow> js_error + json" where
  "readJson s filePath fallbackValue =
     (case fs_readFile s filePath of
        Inl e \<Rightarrow> if e = ENOENT then Inr fallbackValue else Inl (IOError e)
      | Inr raw \<Rightarrow>
          (case JSON_parse raw of
             None \<Rightarrow> Inr fallbackValue
           | Some v \<Rightarrow> Inr v))"

section \<open>The write queue\<close>

datatype status = Pending | MkdirDone | TmpWritten | Fulfilled | Rejected js_error

record wnode =
  wpath :: path
  wvalue :: json
  wstatus :: status

record world =
  disk :: fs
  chain :: "wnode list"
  trace :: "(nat \<times> fs_call) list"

definition settled :: "status \<Rightarrow> bool" where
  "settled st = (case st of Fulfilled \<Rightarrow> True | Rejected _ \<Rightarrow> True | _ \<Rightarrow> False)"

definition pred_status :: "wnode list \<Rightarrow> nat \<Rightarrow> status" where
  "pred_status ns i = (if i = 0 then Fulfilled else wstatus (ns ! (i - 1)))"

definition writeJsonAtomic :: "world \<Rightarrow> path \<Rightarrow> json \<Rightarrow> world" where
  "writeJsonAtomic w filePath v =
     w\<lparr>chain := chain w @ [\<lparr>wpath = filePath, wvalue = v, wstatus = Pending\<rparr>]\<rparr>"

definition set_status :: "nat \<Rightarrow> status \<Rightarrow> world \<Rightarrow> world" where
  "set_status i st w = w\<lparr>chain := (chain w)[i := (chain w ! i)\<lparr>wstatus := st\<rparr>]\<rparr>"

definition after_call :: "nat \<Rightarrow> fs_call \<Rightarrow> io_error + fs \<Rightarrow> status \<Rightarrow> world \<Rightarrow> world" where
  "after_call i c res st w =
     (case res of
        Inl e \<Rightarrow> set_status i (Rejected (IOError e)) (w\<lparr>trace := trace w @ [(i, c)]\<rparr>)
      | Inr s' \<Rightarrow> set_status i st (w\<lparr>disk := s', trace := trace w @ [(i, c)]\<rparr>))"

definition tick :: "nat \<Rightarrow> world \<Rightarrow> world" where
  "tick i w =
     (if length (chain w) \<le> i then w
      else
        let n = chain w ! i;
            filePath = wpath n;
            tmpPath = filePath @ js ''.tmp'';
            raw = JSON_stringify (wvalue n) @ [0x0A]
        in case wstatus n of
             Pending \<Rightarrow>
               (case pred_status (chain w) i of
                  Fulfilled \<Rightarrow>
                    after_call i (Mkdir (dirname filePath)) (fs_mkdir (disk w) (dirname filePath))
                      MkdirDone w
                | Rejected e \<Rightarrow> set_status i (Rejected e) w
                | _ \<Rightarrow> w)
           | MkdirDone \<Rightarrow>
               after_call i (WriteFile tmpPath) (fs_writeFile (disk w) tmpPath raw) TmpWritten w
           | TmpWritten \<Rightarrow>
               after_call i (Rename tmpPath filePath) (fs_rename (disk w) tmpPath filePath) Fulfilled w
           | _ \<Rightarrow> w)"

datatype event = Enqueue path json | Tick nat

fun apply_event :: "world \<Rightarrow> event \<Rightarrow> world" where
  "apply_event w (Enqueue p v) = writeJsonAtomic w p v"
| "apply_event w (Tick i) = tick i w"

definition run :: "event list \<Rightarrow> world \<Rightarrow> world" where
  "run evs w = foldl apply_event w evs"

definition first_unsettled :: "wnode list \<Rightarrow> nat option" where
  "first_unsettled ns =
     (case filter (\<lambda>i. \<not> settled (wstatus (ns ! i))) [0..<length ns] of [] \<Rightarrow> None | i # _ \<Rightarrow> Some i)"

definition tick_first :: "world \<Rightarrow> world" where
  "tick_first w = (case first_unsettled (chain w) of None \<Rightarrow> w | Some i \<Rightarrow> tick i w)"

definition drain :: "world \<Rightarrow> world" where
  "drain w = (tick_first ^^ (3 * length (chain w))) w"

definition outcome :: "status \<Rightarrow> js_error + unit" where
  "outcome st = (case st of Rejected e \<Rightarrow> Inl e | _ \<Rightarrow> Inr ())"

definition await_write :: "world \<Rightarrow> path \<Rightarrow> json \<Rightarrow> world \<times> (js_error + unit)" where
  "await_write w filePath v =
     (let w' = drain (writeJsonAtomic w filePath v)
      in (w', outcome (wstatus (last (chain w')))))"

definition idle :: "world \<Rightarrow> bool" where
  "idle w \<longleftrightarrow> (\<forall>n \<in> set (chain w). wstatus n = Fulfilled)"

definition quiescent :: "world \<Rightarrow> bool" where
  "quiescent w \<longleftrightarrow> (\<forall>n \<in> set (chain w). settled (wstatus n))"

definition can_write :: "fs \<Rightarrow> path \<Rightarrow> bool" where
  "can_write s p \<longleftrightarrow>
     fault s (Mkdir (dirname p)) = None
     \<and> fault s (WriteFile (p @ js ''.tmp'')) = None
     \<and> fault s (Rename (p @ js ''.tmp'') p) = None"

text \<open>The world after a write of \<open>v\<close> to \<open>p\<close> has gone through on an idle queue.\<close>

definition written :: "world \<Rightarrow> path \<Rightarrow> json \<Rightarrow> world" where
  "written w p v =
     \<lparr>disk = (disk w)\<lparr>files := ((files (disk w))(p @ js ''.tmp'' := None))(p \<mapsto> JSON_stringify v @ [0x0A])\<rparr>,
      chain = chain w @ [\<lparr>wpath = p, wvalue = v, wstatus = Fulfilled\<rparr>],
      trace = trace w @ [(length (chain w), Mkdir (dirname p)),
                         (length (chain w), WriteFile (p @ js ''.tmp'')),
                         (length (chain w), Rename (p @ js ''.tmp'') p)]\<rparr>"

type_synonym wop = "path \<times> json"

definition enqueued :: "event list \<Rightarrow> wop list" where
  "enqueued evs = concat (map (\<lambda>e. case e of Enqueue p v \<Rightarrow> [(p, v)] | Tick _ \<Rightarrow> []) evs)"

definition calls_of_op :: "nat \<Rightarrow> wop \<Rightarrow> (nat \<times> fs_call) list" where
  "calls_of_op i op =
     [(i, Mkdir (dirname (fst op))),
      (i, WriteFile (fst op @ js ''.tmp'')),
      (i, Rename (fst op @ js ''.tmp'') (fst op))]"

fun calls_from :: "nat \<Rightarrow> wop list \<Rightarrow> (nat \<times> fs_call) list" where
  "calls_from i [] = []"
| "calls_from i (op # ops) = calls_of_op i op @ calls_from (Suc i) ops"

definition ops_of :: "world \<Rightarrow> wop list" where
  "ops_of w = map (\<lambda>n. (wpath n, wvalue n)) (chain w)"

definition no_faults :: "fs \<Rightarrow> bool" where
  "no_faults s \<longleftrightarrow> (\<forall>c. fault s c = None)"

definition stat_of :: "nat \<Rightarrow> nat \<Rightarrow> status" where
  "stat_of t i =
     (if 3 * i + 3 \<le> t then Fulfilled
      else if t = 3 * i + 2 then TmpWritten
      else if t = 3 * i + 1 then MkdirDone
      else Pending)"

definition queue_inv :: "world \<Rightarrow> bool" where
  "queue_inv w \<longleftrightarrow>
     (let t = length (trace w); ops = ops_of w in
        no_faults (disk w)
        \<and> t \<le> 3 * length ops
        \<and> trace w = take t (calls_from 0 ops)
        \<and> (\<forall>i < length ops. wstatus (chain w ! i) = stat_of t i)
        \<and> (t mod 3 = 2 \<longrightarrow>
             files (disk w) (fst (ops ! (t div 3)) @ js ''.tmp'')
               = Some (JSON_stringify (snd (ops ! (t div 3))) @ [0x0A]))
        \<and> (t mod 3 = 0 \<longrightarrow> 0 < t \<longrightarrow>
             files (disk w) (fst (ops ! (t div 3 - 1)))
               = Some (JSON_stringify (snd (ops ! (t div 3 - 1))) @ [0x0A])))"

definition boot :: "fs \<Rightarrow> world" where
  "boot s = \<lparr>disk = s, chain = [], trace = []\<rparr>"

definition DATA_DIR :: path where
  "DATA_DIR = js ''data''"

definition SITE_JSON_PATH :: path where
  "SITE_JSON_PATH = DATA_DIR @ js ''/site.json''"

definition SUBMISSIONS_JSON_PATH :: path where
  "SUBMISSIONS_JSON_PATH = DATA_DIR @ js ''/submissions.json''"

definition empty_disk :: fs where
  "empty_disk = \<lparr>files = Map.empty, fault = (\<lambda>c. None)\<rparr>"

definition locked_tmp_disk :: fs where
  "locked_tmp_disk =
     \<lparr>files = Map.empty,
      fault = (\<lambda>c. if c = WriteFile (SUBMISSIONS_JSON_PATH @ js ''.tmp'') then Some EACCES else None)\<rparr>"

definition three_writers :: "event list" where
  "three_writers =
     [Enqueue SITE_JSON_PATH (JNum 0), Enqueue SITE_JSON_PATH (JNum 1), Tick 1, Tick 0,
      Enqueue SITE_JSON_PATH (JNum 2), Tick 0, Tick 2]"

definition sample_document :: json where
  "sample_document =
     JObj [(js ''meta'', JObj [(js ''title'', JStr (js ''Portfolio''))]),
           (js ''hero'', JObj [(js ''enabled'', JBool True),
                                 (js ''titles'', JArr [JStr (js ''Dev''), JStr (js ''Ops'')]),
                                 (js ''count'', JNum (- 3))]),
           (js ''about'', JNull)]"

definition after_failed_append :: world where
  "after_failed_append = fst (await_write (boot locked_tmp_disk) SUBMISSIONS_JSON_PATH (JArr [JNum 1]))"

definition array_or_empty :: "json \<Rightarrow> json list" where
  "array_or_empty current = (case current of JArr xs \<Rightarrow> xs | _ \<Rightarrow> [])"

definition appendSubmission :: "world \<Rightarrow> json \<Rightarrow> world \<times> (js_error + unit)" where
  "appendSubmission w submission =
     (case readJson (disk w) SUBMISSIONS_JSON_PATH (JArr []) of
        Inl e \<Rightarrow> (w, Inl e)
      | Inr current \<Rightarrow>
          let pushed = array_or_empty current @ [submission];
              next = (if length pushed > 250 then drop (length pushed - 250) pushed else pushed)
          in await_write w SUBMISSIONS_JSON_PATH (JArr next))"

text \<open>Property reads as the program makes them: on objects, for names that are not inherited.\<close>

fun get_prop :: "json \<Rightarrow> jstr \<Rightarrow> json option" where
  "get_prop (JObj kvs) k = map_of kvs k"
| "get_prop _ k = None"


text \<open>
  \<^verbatim>\<open>Object.assign(target, ...sources)\<close>: the own enumerable properties of each source, in
  order, are set on the target.
\<close>

fun own_props :: "json \<Rightarrow> (jstr \<times> json) list" where
  "own_props (JObj kvs) = kvs"
| "own_props (JArr xs) = zip (map show_nat [0..<length xs]) xs"
| "own_props (JStr s) = zip (map show_nat [0..<length s]) (map (\<lambda>c. JStr [c]) s)"
| "own_props _ = []"

definition assign_from :: "(jstr \<times> json) list \<Rightarrow> json \<Rightarrow> (jstr \<times> json) list" where
  "assign_from target src = foldl (\<lambda>obj kv. obj_set obj (fst kv) (snd kv)) target (own_props src)"

definition object_assign :: "(jstr \<times> json) list \<Rightarrow> json list \<Rightarrow> (jstr \<times> json) list" where
  "object_assign target sources = foldl assign_from target sources"



text \<open>Calls made one after the other, each awaited; and the log as the program reads it.\<close>

fun append_all :: "world \<Rightarrow> json list \<Rightarrow> world" where
  "append_all w [] = w"
| "append_all w (s # ss) = append_all (fst (appendSubmission w s)) ss"

definition log_of :: "fs \<Rightarrow> json list" where
  "log_of s =
     (case readJson s SUBMISSIONS_JSON_PATH (JArr []) of
        Inl e \<Rightarrow> []
      | Inr current \<Rightarrow> array_or_empty current)"

definition log_ready :: "world \<Rightarrow> bool" where
  "log_ready w \<longleftrightarrow>
     idle w \<and> can_write (disk w) SUBMISSIONS_JSON_PATH
     \<and> fault (disk w) (ReadFile SUBMISSIONS_JSON_PATH) = None"

definition keep_last :: "nat \<Rightarrow> 'a list \<Rightarrow> 'a list" where
  "keep_last n xs = drop (length xs - n) xs"

definition numbered :: "nat \<Rightarrow> json" where
  "numbered i = JObj [(js ''id'', JStr (show_nat i)), (js ''status'', JStr (js ''received''))]"



section \<open>Requests and responses\<close>

text \<open>
  What a handler reads of a request: the session (\<^verbatim>\<open>req.session.user\<close>,
  \<^verbatim>\<open>req.session.csrfToken\<close>), the parsed body (an object) and the route parameter
  \<^verbatim>\<open>req.params.id\<close>.  A handler answers with a redirect, or its promise is rejected and
  nothing is sent.
\<close>

record request =
  session_user :: "json option"
  session_csrf :: "json option"
  body :: "(jstr \<times> json) list"
  param_id :: jstr

datatype response = Redirect jstr | Unanswered js_error

definition field :: "request \<Rightarrow> jstr \<Rightarrow> json option" where
  "field req k = map_of (body req) k"

text \<open>\<^verbatim>\<open>a === b\<close> for a value of the session and one of the body (never the same object).\<close>

definition strict_eq :: "json \<Rightarrow> json \<Rightarrow> bool" where
  "strict_eq a b = (case a of JArr _ \<Rightarrow> False | JObj _ \<Rightarrow> False | _ \<Rightarrow> a = b)"

definition assertCsrf :: "request \<Rightarrow> bool" where
  "assertCsrf req =
     (case (session_csrf req, field req (js ''_csrf'')) of
        (Some expected, Some got) \<Rightarrow> truthy expected \<and> truthy got \<and> strict_eq expected got
      | _ \<Rightarrow> False)"

definition requireAuth :: "(world \<Rightarrow> request \<Rightarrow> world \<times> response) \<Rightarrow> world \<Rightarrow> request \<Rightarrow> world \<times> response" where
  "requireAuth handler w req =
     (if truthy_opt (session_user req) then handler w req else (w, Redirect (js ''/admin/login'')))"

text \<open>\<^verbatim>\<open>String(v || '')\<close>, and \<^verbatim>\<open>v && typeof v === 'object'\<close>.\<close>

definition string_or_empty :: "json option \<Rightarrow> jstr" where
  "string_or_empty v = (case v of None \<Rightarrow> [] | Some x \<Rightarrow> if truthy x then to_string x else [])"

definition object_like :: "json \<Rightarrow> bool" where
  "object_like v = (case v of JObj _ \<Rightarrow> True | JArr _ \<Rightarrow> True | _ \<Rightarrow> False)"

text \<open>
  \<^verbatim>\<open>site[key] = v\<close>.  On an array the assignment makes a named property, which is not
  part of the array's JSON text: what is written to disk is the array as it was.
\<close>

fun set_prop :: "json \<Rightarrow> jstr \<Rightarrow> json \<Rightarrow> json" where
  "set_prop (JObj kvs) k v = JObj (obj_set kvs k v)"
| "set_prop other k v = other"

text \<open>A run of assignments \<^verbatim>\<open>obj.k = v\<close>.\<close>

definition assign_fields :: "(jstr \<times> json) list \<Rightarrow> (jstr \<times> json) list \<Rightarrow> (jstr \<times> json) list" where
  "assign_fields obj kvs = foldl (\<lambda>acc kv. obj_set acc (fst kv) (snd kv)) obj kvs"

text \<open>\<^verbatim>\<open>await writeJsonAtomic(SITE_JSON_PATH, site); return res.redirect(ok)\<close>.\<close>

definition save_site :: "world \<Rightarrow> json \<Rightarrow> jstr \<Rightarrow> world \<times> response" where
  "save_site w site ok =
     (case await_write w SITE_JSON_PATH site of
        (w', Inl e) \<Rightarrow> (w', Unanswered e)
      | (w', Inr _) \<Rightarrow> (w', Redirect ok))"

section \<open>POST /admin/meta\<close>

text \<open>\<^verbatim>\<open>Object.assign({}, site.meta, {title, description, ogImage})\<close>; an undefined source is skipped.\<close>

definition meta_section :: "json option \<Rightarrow> jstr \<Rightarrow> jstr \<Rightarrow> jstr \<Rightarrow> (jstr \<times> json) list" where
  "meta_section prev title description ogImage =
     object_assign []
       ((case prev of None \<Rightarrow> [] | Some m \<Rightarrow> [m])
        @ [JObj [(js ''title'', JStr title),
                 (js ''description'', JStr description),
                 (js ''ogImage'', JStr ogImage)]])"

definition admin_meta :: "world \<Rightarrow> request \<Rightarrow> world \<times> response" where
  "admin_meta w req =
     (if \<not> assertCsrf req then (w, Redirect (js ''/admin?page=meta&error=Invalid+session''))
      else
        let title = asTrimmedString (field req (js ''title'')) in
        if title = [] then (w, Redirect (js ''/admin?page=meta&error=Title+is+required''))
        else if length title > 120 then (w, Redirect (js ''/admin?page=meta&error=Title+too+long''))
        else
          let description = asTrimmedString (field req (js ''description''));
              ogImage = asTrimmedString (field req (js ''ogImage''))
          in
          if length description > 240
          then (w, Redirect (js ''/admin?page=meta&error=Description+too+long''))
          else if length ogImage > 300
          then (w, Redirect (js ''/admin?page=meta&error=OG+image+URL+too+long''))
          else
            (case readJson (disk w) SITE_JSON_PATH JNull of
               Inl e \<Rightarrow> (w, Unanswered e)
             | Inr site \<Rightarrow>
                 if \<not> object_like site
                 then (w, Redirect (js ''/admin?page=meta&error=Missing+site.json''))
                 else save_site w
                        (set_prop site (js ''meta'')
                           (JObj (meta_section (get_prop site (js ''meta'')) title description ogImage)))
                        (js ''/admin?page=meta&saved=1'')))"

definition post_admin_meta :: "world \<Rightarrow> request \<Rightarrow> world \<times> response" where
  "post_admin_meta = requireAuth admin_meta"

section \<open>POST /admin/hero\<close>

text \<open>\<^verbatim>\<open>String(req.body[k] || '').trim()\<close>.\<close>

definition hero_text :: "request \<Rightarrow> jstr \<Rightarrow> jstr" where
  "hero_text req k = trim (string_or_empty (field req k))"

text \<open>\<^verbatim>\<open>currentCtas[i] || {}\<close>.\<close>

definition nth_or_empty :: "json list \<Rightarrow> nat \<Rightarrow> json" where
  "nth_or_empty xs i = (if i < length xs \<and> truthy (xs ! i) then xs ! i else JObj [])"

definition build_cta :: "jstr \<Rightarrow> json \<Rightarrow> jstr \<Rightarrow> jstr \<Rightarrow> (jstr \<times> json) list" where
  "build_cta style current label href =
     (let c = object_assign [(js ''style'', JStr style), (js ''icon'', JStr [])] [current];
          c = (if label \<noteq> [] then obj_set c (js ''label'') (JStr label) else c);
          c = (if href \<noteq> [] then obj_set c (js ''href'') (JStr href) else c)
      in c)"

definition cta_kept :: "(jstr \<times> json) list \<Rightarrow> bool" where
  "cta_kept c \<longleftrightarrow> truthy_opt (map_of c (js ''label'')) \<or> truthy_opt (map_of c (js ''href''))"

text \<open>
  The section the handler stores: a copy of the previous section with the form's
  fields assigned, then \<^verbatim>\<open>ctas\<close> rebuilt from the previous buttons and the four CTA
  fields.
\<close>

definition hero_section ::
  "json \<Rightarrow> bool \<Rightarrow> jstr \<Rightarrow> jstr \<Rightarrow> jstr \<Rightarrow> jstr \<Rightarrow> jstr \<Rightarrow> jstr list
     \<Rightarrow> jstr \<Rightarrow> jstr \<Rightarrow> jstr \<Rightarrow> jstr \<Rightarrow> (jstr \<times> json) list" where
  "hero_section hero0 enabled greeting firstName lastName description scrollText titles
       cta1Label cta1Href cta2Label cta2Href =
     (let hero = assign_fields (object_assign [] [hero0])
            [(js ''enabled'', JBool enabled),
             (js ''greeting'', JStr greeting),
             (js ''firstName'', JStr firstName),
             (js ''lastName'', JStr lastName),
             (js ''description'', JStr description),
             (js ''scrollText'', JStr scrollText),
             (js ''titles'', JArr (map JStr titles))];
          currentCtas = (case map_of hero (js ''ctas'') of Some (JArr cs) \<Rightarrow> cs | _ \<Rightarrow> []);
          cta1 = build_cta (js ''primary'') (nth_or_empty currentCtas 0) cta1Label cta1Href;
          cta2 = build_cta (js ''outline'') (nth_or_empty currentCtas 1) cta2Label cta2Href
      in obj_set hero (js ''ctas'') (JArr (map JObj (filter cta_kept [cta1, cta2]))))"

definition admin_hero :: "world \<Rightarrow> request \<Rightarrow> world \<times> response" where
  "admin_hero w req =
     (if \<not> assertCsrf req then (w, Redirect (js ''/admin?page=hero&error=Invalid+session''))
      else
        (case readJson (disk w) SITE_JSON_PATH JNull of
           Inl e \<Rightarrow> (w, Unanswered e)
         | Inr site \<Rightarrow>
             if \<not> object_like site
             then (w, Redirect (js ''/admin?page=hero&error=Missing+site.json''))
             else
               let hero0 = (case get_prop site (js ''hero'') of
                              None \<Rightarrow> JObj []
                            | Some h \<Rightarrow> if object_like h then h else JObj []);
                   enabled = parseEnabled (field req (js ''enabled''));
                   greeting = hero_text req (js ''greeting'');
                   firstName = hero_text req (js ''firstName'');
                   lastName = hero_text req (js ''lastName'');
                   description = hero_text req (js ''description'');
                   scrollText = hero_text req (js ''scrollText'');
                   titles = take 12 (filter (\<lambda>l. l \<noteq> [])
                              (map trim (split_on 0x0A (string_or_empty (field req (js ''titles''))))));
                   cta1Label = hero_text req (js ''cta1Label'');
                   cta1Href = hero_text req (js ''cta1Href'');
                   cta2Label = hero_text req (js ''cta2Label'');
                   cta2Href = hero_text req (js ''cta2Href'')
               in
               if length greeting > 80
               then (w, Redirect (js ''/admin?page=hero&error=Greeting+too+long''))
               else if firstName = []
               then (w, Redirect (js ''/admin?page=hero&error=First+name+is+required''))
               else if lastName = []
               then (w, Redirect (js ''/admin?page=hero&error=Last+name+is+required''))
               else if length firstName > 40
               then (w, Redirect (js ''/admin?page=hero&error=First+name+too+long''))
               else if length lastName > 40
               then (w, Redirect (js ''/admin?page=hero&error=Last+name+too+long''))
               else if length description > 320
               then (w, Redirect (js ''/admin?page=hero&error=Description+too+long''))
               else if length scrollText > 40
               then (w, Redirect (js ''/admin?page=hero&error=Scroll+text+too+long''))
               else if length cta1Label > 40 \<or> length cta2Label > 40
               then (w, Redirect (js ''/admin?page=hero&error=CTA+text+too+long''))
               else if length cta1Href > 240 \<or> length cta2Href > 240
               then (w, Redirect (js ''/admin?page=hero&error=CTA+URL+too+long''))
               else save_site w
                      (set_prop site (js ''hero'')
                         (JObj (hero_section hero0 enabled greeting firstName lastName description
                                  scrollText titles cta1Label cta1Href cta2Label cta2Href)))
                      (js ''/admin?page=hero&saved=1'')))"

definition post_admin_hero :: "world \<Rightarrow> request \<Rightarrow> world \<times> response" where
  "post_admin_hero = requireAuth admin_hero"

section \<open>POST /admin/projects\<close>

text \<open>\<^verbatim>\<open>p && p.k\<close>.\<close>

definition and_prop :: "json \<Rightarrow> jstr \<Rightarrow> json option" where
  "and_prop p k = (if truthy p then get_prop p k else Some p)"

text \<open>The callbacks that turn a filter line and a submitted card into what is stored; \<open>None\<close> is their \<^verbatim>\<open>null\<close>.\<close>

definition project_filter :: "jstr \<Rightarrow> json option" where
  "project_filter line =
     (let parts = map trim (split_on 0x7C line);
          label = (case parts of p # _ \<Rightarrow> p | [] \<Rightarrow> []);
          val = trim (join (js '' | '') (drop 1 parts))
      in if label = [] \<or> val = [] then None
         else Some (JObj [(js ''label'', JStr label), (js ''value'', JStr val)]))"

definition project_card :: "json \<Rightarrow> json option" where
  "project_card p =
     (let category = asTrimmedString (and_prop p (js ''category''));
          frontIcon = asTrimmedString (and_prop p (js ''frontIcon''));
          frontTitle = asTrimmedString (and_prop p (js ''frontTitle''));
          frontDesc = asTrimmedString (and_prop p (js ''frontDesc''));
          backTitle = asTrimmedString (and_prop p (js ''backTitle''));
          backDesc = asTrimmedString (and_prop p (js ''backDesc''));
          tech = splitCsv (and_prop p (js ''techCsv'')) (Some 20);
          linkType = (let t = asTrimmedString (and_prop p (js ''linkType''))
                      in if t = [] then js ''link'' else t);
          linkLabel = asTrimmedString (and_prop p (js ''linkLabel''));
          linkHref = asTrimmedString (and_prop p (js ''linkHref''));
          linkIcon = asTrimmedString (and_prop p (js ''linkIcon''))
      in
      if frontTitle = [] then None
      else
        let card = [(js ''category'', JStr category),
                    (js ''frontIcon'', JStr frontIcon),
                    (js ''frontTitle'', JStr frontTitle),
                    (js ''frontDesc'', JStr frontDesc),
                    (js ''backTitle'', JStr backTitle),
                    (js ''backDesc'', JStr backDesc),
                    (js ''tech'', JArr (map JStr tech))]
        in Some (JObj
             (if linkLabel \<noteq> [] \<or> linkHref \<noteq> [] \<or> linkIcon \<noteq> []
              then (if linkType = js ''status''
                    then obj_set card (js ''link'')
                           (JObj [(js ''type'', JStr (js ''status'')),
                                  (js ''icon'', JStr linkIcon),
                                  (js ''label'', JStr linkLabel)])
                    else obj_set card (js ''link'')
                           (JObj [(js ''href'', JStr linkHref),
                                  (js ''icon'', JStr linkIcon),
                                  (js ''label'', JStr linkLabel)]))
              else card)))"

text \<open>\<^verbatim>\<open>next = Object.assign({}, site.projects)\<close>, then the five assignments.\<close>

definition projects_section ::
  "json option \<Rightarrow> bool \<Rightarrow> jstr \<Rightarrow> jstr \<Rightarrow> json list \<Rightarrow> json list \<Rightarrow> (jstr \<times> json) list" where
  "projects_section prev enabled number title filters cards =
     assign_fields (object_assign [] (case prev of None \<Rightarrow> [] | Some p \<Rightarrow> [p]))
       [(js ''enabled'', JBool enabled),
        (js ''number'', JStr number),
        (js ''title'', JStr title),
        (js ''filters'', JArr filters),
        (js ''cards'', JArr cards)]"

definition admin_projects :: "world \<Rightarrow> request \<Rightarrow> world \<times> response" where
  "admin_projects w req =
     (if \<not> assertCsrf req then (w, Redirect (js ''/admin?page=projects&error=Invalid+session''))
      else
        let enabled = parseEnabled (field req (js ''enabled''));
            number = asTrimmedString (field req (js ''number''));
            title = asTrimmedString (field req (js ''title''));
            filters = List.map_filter project_filter (splitLines (field req (js ''filtersLines'')) (Some 30));
            cards = take 40 (List.map_filter project_card (normalizeArray (field req (js ''cards''))))
        in
        if length number > 10
        then (w, Redirect (js ''/admin?page=projects&error=Number+too+long''))
        else if title = []
        then (w, Redirect (js ''/admin?page=projects&error=Title+is+required''))
        else if length title > 60
        then (w, Redirect (js ''/admin?page=projects&error=Title+too+long''))
        else
          (case readJson (disk w) SITE_JSON_PATH JNull of
             Inl e \<Rightarrow> (w, Unanswered e)
           | Inr site \<Rightarrow>
               if \<not> object_like site
               then (w, Redirect (js ''/admin?page=projects&error=Missing+site.json''))
               else save_site w
                      (set_prop site (js ''projects'')
                         (JObj (projects_section (get_prop site (js ''projects'')) enabled number title
                                  filters cards)))
                      (js ''/admin?page=projects&saved=1'')))"

definition post_admin_projects :: "world \<Rightarrow> request \<Rightarrow> world \<times> response" where
  "post_admin_projects = requireAuth admin_projects"

section \<open>POST /admin/section/:id and POST /admin/site\<close>

definition EDITABLE_SECTIONS :: "jstr list" where
  "EDITABLE_SECTIONS =
     map js [''meta'', ''nav'', ''hero'', ''about'', ''techstack'', ''projects'', ''casestudies'',
             ''experience'', ''certifications'', ''blog'', ''github'', ''contact'', ''footer'']"

text \<open>
  The section id is \<^verbatim>\<open>String(req.params.id || '')\<close>, here \<open>param_id\<close>.  Once it has been
  found in \<open>EDITABLE_SECTIONS\<close> it is made of lower-case letters, which
  \<^verbatim>\<open>encodeURIComponent\<close> leaves as they are.
\<close>

definition admin_section :: "world \<Rightarrow> request \<Rightarrow> world \<times> response" where
  "admin_section w req =
     (if \<not> assertCsrf req then (w, Redirect (js ''/admin?error=Invalid+session''))
      else
        let sectionId = param_id req in
        if sectionId \<notin> set EDITABLE_SECTIONS then (w, Redirect (js ''/admin?error=Unknown+section''))
        else
          (case JSON_parse (string_or_empty (field req (js ''sectionJson''))) of
             None \<Rightarrow> (w, Redirect (js ''/admin?page='' @ sectionId @ js ''&error=Invalid+JSON''))
           | Some (JObj parsed) \<Rightarrow>
               (case readJson (disk w) SITE_JSON_PATH JNull of
                  Inl e \<Rightarrow> (w, Unanswered e)
                | Inr site \<Rightarrow>
                    if \<not> object_like site then (w, Redirect (js ''/admin?error=Missing+site.json''))
                    else
                      let enabled = parseEnabled (field req (js ''enabled''));
                          section = (if sectionId \<noteq> js ''meta'' \<and> sectionId \<noteq> js ''nav''
                                     then obj_set parsed (js ''enabled'') (JBool enabled)
                                     else parsed)
                      in save_site w (set_prop site sectionId (JObj section))
                           (js ''/admin?page='' @ sectionId @ js ''&saved=1''))
           | Some _ \<Rightarrow>
               (w, Redirect (js ''/admin?page='' @ sectionId @ js ''&error=Section+must+be+an+object''))))"

definition post_admin_section :: "world \<Rightarrow> request \<Rightarrow> world \<times> response" where
  "post_admin_section = requireAuth admin_section"

definition admin_site :: "world \<Rightarrow> request \<Rightarrow> world \<times> response" where
  "admin_site w req =
     (if \<not> assertCsrf req then (w, Redirect (js ''/admin?error=Invalid+session''))
      else
        (case JSON_parse (string_or_empty (field req (js ''siteJson''))) of
           None \<Rightarrow> (w, Redirect (js ''/admin?error=Invalid+JSON''))
         | Some parsed \<Rightarrow>
             if \<not> object_like parsed then (w, Redirect (js ''/admin?error=Invalid+JSON''))
             else if \<not> truthy_opt (get_prop parsed (js ''meta''))
                     \<or> \<not> truthy_opt (get_prop parsed (js ''hero''))
                     \<or> \<not> truthy_opt (get_prop parsed (js ''about''))
             then (w, Redirect (js ''/admin?error=Missing+required+fields''))
             else save_site w parsed (js ''/admin?page=raw&saved=1'')))"

definition post_admin_site :: "world \<Rightarrow> request \<Rightarrow> world \<times> response" where
  "post_admin_site = requireAuth admin_site"

text \<open>
  A world in which a save of the site document goes through at once: no write is
  outstanding or has failed, and no call on \<open>site.json\<close> fails.
\<close>

definition site_ready :: "world \<Rightarrow> bool" where
  "site_ready w \<longleftrightarrow>
     idle w \<and> can_write (disk w) SITE_JSON_PATH
     \<and> fault (disk w) (ReadFile SITE_JSON_PATH) = None"

text \<open>The document a handler gets from \<^verbatim>\<open>readJson(SITE_JSON_PATH, null)\<close>.\<close>

definition site_of :: "world \<Rightarrow> json" where
  "site_of w = (case readJson (disk w) SITE_JSON_PATH JNull of Inr v \<Rightarrow> v | Inl e \<Rightarrow> JNull)"

text \<open>\<^verbatim>\<open>doc[section][k]\<close>, undefined when the section is.\<close>

definition section_field :: "json \<Rightarrow> jstr \<Rightarrow> jstr \<Rightarrow> json option" where
  "section_field doc sec k = (case get_prop doc sec of None \<Rightarrow> None | Some s \<Rightarrow> get_prop s k)"

definition site_world :: "json \<Rightarrow> world" where
  "site_world doc = written (boot empty_disk) SITE_JSON_PATH doc"

definition admin_request :: "(jstr \<times> json) list \<Rightarrow> jstr \<Rightarrow> request" where
  "admin_request flds sid =
     \<lparr>session_user = Some (JStr (js ''admin'')), session_csrf = Some (JStr (js ''tok'')),
      body = (js ''_csrf'', JStr (js ''tok'')) # flds, param_id = sid\<rparr>"

definition hero_payload :: "(jstr \<times> json) list" where
  "hero_payload = [(js ''greeting'', JStr (js ''Yo'')), (js ''enabled'', JBool True)]"

text \<open>
  A signed-in request to the section route: the payload as JSON text, and the
  \<^verbatim>\<open>enabled\<close> form field when there is one.
\<close>

definition section_request :: "jstr \<Rightarrow> (jstr \<times> json) list \<Rightarrow> json option \<Rightarrow> request" where
  "section_request sid payload flag =
     admin_request
       ((js ''sectionJson'', JStr (JSON_stringify (JObj payload) @ [0x0A]))
        # (case flag of None \<Rightarrow> [] | Some f \<Rightarrow> [(js ''enabled'', f)]))
       sid"

section \<open>Properties of the line grammars\<close>

lemma split_on_nonempty: "split_on c s \<noteq> []"
  by (induction s) (auto split: list.splits)



















section \<open>JSON.parse reads back what JSON.stringify wrote\<close>

lemma unat_small: "n < 65536 \<Longrightarrow> unat (of_nat n :: jchar) = n"
  by (simp add: unat_of_nat)

lemma unat_hex_digit: "d < 16 \<Longrightarrow> unat (hex_digit d) = (if d < 10 then 48 + d else 87 + d)"
  unfolding hex_digit_def by (simp add: unat_small del: of_nat_add)

lemma hex_val_hex_digit: "d < 16 \<Longrightarrow> hex_val (hex_digit d) = Some d"
  by (simp add: hex_val_def word_le_nat_alt unat_hex_digit)

lemma nibbles:
  fixes n :: nat
  shows "((n div 4096 * 16 + n div 256 mod 16) * 16 + n div 16 mod 16) * 16 + n mod 16 = n"
proof -
  have a: "n div 4096 = n div 256 div 16" and b: "n div 256 = n div 16 div 16"
    by (simp_all add: div_mult2_eq [symmetric])
  have "n div 4096 * 16 + n div 256 mod 16 = n div 256"
    unfolding a by simp
  moreover have "n div 256 * 16 + n div 16 mod 16 = n div 16"
    unfolding b by simp
  ultimately show ?thesis by simp
qed

lemma hex4_uescape:
  "hex4 (hex_digit (unat c div 4096)) (hex_digit (unat c div 256 mod 16))
        (hex_digit (unat c div 16 mod 16)) (hex_digit (unat c mod 16)) = Some (c :: jchar)"
proof -
  let ?n = "unat c"
  have "?n < 2 ^ LENGTH(16)"
    by (rule unsigned_less)
  then have "?n div 4096 < 16" by simp
  then have h1: "hex_val (hex_digit (?n div 4096)) = Some (?n div 4096)"
    by (rule hex_val_hex_digit)
  have h2: "hex_val (hex_digit (?n div 256 mod 16)) = Some (?n div 256 mod 16)"
    and h3: "hex_val (hex_digit (?n div 16 mod 16)) = Some (?n div 16 mod 16)"
    and h4: "hex_val (hex_digit (?n mod 16)) = Some (?n mod 16)"
    by (simp_all add: hex_val_hex_digit)
  have "hex4 (hex_digit (?n div 4096)) (hex_digit (?n div 256 mod 16))
        (hex_digit (?n div 16 mod 16)) (hex_digit (?n mod 16))
      = Some (of_nat (((?n div 4096 * 16 + ?n div 256 mod 16) * 16 + ?n div 16 mod 16) * 16 + ?n mod 16))"
    unfolding hex4_def by (simp only: h1 h2 h3 h4 prod.case option.case)
  also have "\<dots> = Some (of_nat ?n)"
    by (simp only: nibbles)
  finally show ?thesis by simp
qed

lemma parse_str_uescape: "parse_str (uescape c @ r) = cons_result c (parse_str r)"
  by (simp add: uescape_def hex4_uescape)

lemma surrogate_plain:
  "is_high_surrogate c \<or> is_low_surrogate c \<Longrightarrow> c \<noteq> 0x22 \<and> c \<noteq> 0x5C \<and> \<not> c < 0x20"
  by (auto simp: is_high_surrogate_def is_low_surrogate_def word_le_nat_alt word_less_nat_alt)

lemma parse_str_plain:
  "c \<noteq> 0x22 \<and> c \<noteq> 0x5C \<and> \<not> c < 0x20 \<Longrightarrow> parse_str (c # r) = cons_result c (parse_str r)"
  by simp

lemma parse_str_quote_unit: "parse_str (quote_unit c @ r) = cons_result c (parse_str r)"
  by (simp add: quote_unit_def parse_str_uescape unescape_def)

lemma parse_str_quote_units: "parse_str (quote_units s @ 0x22 # rest) = Some (s, rest)"
proof (induction s rule: quote_units.induct)
  case 1
  show ?case by simp
next
  case (2 c)
  have "parse_str (quote_unit c @ 0x22 # rest) = Some ([c], rest)"
    unfolding parse_str_quote_unit by (simp add: cons_result_def)
  then show ?case by simp
next
  case (3 c d cs)
  show ?case
  proof (cases "is_high_surrogate c \<and> is_low_surrogate d")
    case True
    then have eq: "quote_units (c # d # cs) = c # d # quote_units cs" by simp
    have tail: "parse_str (quote_units cs @ 0x22 # rest) = Some (cs, rest)"
      using 3(1) True by blast
    have pc: "c \<noteq> 0x22 \<and> c \<noteq> 0x5C \<and> \<not> c < 0x20" and pd: "d \<noteq> 0x22 \<and> d \<noteq> 0x5C \<and> \<not> d < 0x20"
      using True surrogate_plain by blast+
    have "parse_str (c # d # quote_units cs @ 0x22 # rest) = Some (c # d # cs, rest)"
      unfolding parse_str_plain [OF pc] parse_str_plain [OF pd] tail
      by (simp add: cons_result_def)
    then show ?thesis unfolding eq by simp
  next
    case False
    then have eq: "quote_units (c # d # cs) = quote_unit c @ quote_units (d # cs)" by auto
    have tail: "parse_str (quote_units (d # cs) @ 0x22 # rest) = Some (d # cs, rest)"
      using 3(2) False by blast
    have "parse_str (quote_unit c @ quote_units (d # cs) @ 0x22 # rest) = Some (c # d # cs, rest)"
      unfolding parse_str_quote_unit tail by (simp add: cons_result_def)
    then show ?thesis unfolding eq by simp
  qed
qed

subsection \<open>Integers survive printing\<close>

lemma unat_digit_char: "d < 10 \<Longrightarrow> unat (digit_char d) = 48 + d"
  unfolding digit_char_def by (simp add: unat_small del: of_nat_add)

lemma is_digit_digit_char: "d < 10 \<Longrightarrow> is_digit (digit_char d)"
  by (simp add: is_digit_def word_le_nat_alt unat_digit_char)

lemma show_nat_digits: "c \<in> set (show_nat n) \<Longrightarrow> is_digit c"
proof (induction n rule: show_nat.induct)
  case (1 n)
  then show ?case
    by (subst (asm) show_nat.simps) (auto simp: is_digit_digit_char split: if_splits)
qed

lemma show_nat_nonempty: "show_nat n \<noteq> []"
  by (subst show_nat.simps) simp

lemma digits_value_show_nat: "digits_value 0 (show_nat n) = n"
proof (induction n rule: show_nat.induct)
  case (1 n)
  show ?case
  proof (cases "n < 10")
    case True
    then show ?thesis
      by (subst show_nat.simps) (simp add: digits_value_def unat_digit_char)
  next
    case False
    with 1 have "digits_value 0 (show_nat (n div 10)) = n div 10" by simp
    with False show ?thesis
      by (subst show_nat.simps) (simp add: digits_value_def unat_digit_char)
  qed
qed

lemma parse_digits_all:
  "\<forall>c \<in> set ds. is_digit c \<Longrightarrow> rest = [] \<or> \<not> is_digit (hd rest) \<Longrightarrow>
     parse_digits (ds @ rest) acc = (digits_value acc ds, rest)"
proof (induction ds arbitrary: acc)
  case Nil
  then show ?case by (cases rest) (auto simp: digits_value_def)
next
  case (Cons d ds)
  then show ?case by (simp add: digits_value_def)
qed

lemma hd_show_nat: "0 < n \<Longrightarrow> hd (show_nat n) \<noteq> 0x30"
proof (induction n rule: show_nat.induct)
  case (1 n)
  show ?case
  proof (cases "n < 10")
    case True
    have "unat (digit_char n) \<noteq> unat (0x30 :: jchar)"
      using True 1(2) by (simp add: unat_digit_char)
    then have "digit_char n \<noteq> 0x30" by auto
    with True show ?thesis by (subst show_nat.simps) simp
  next
    case False
    with 1 have "hd (show_nat (n div 10)) \<noteq> 0x30" by simp
    with False show ?thesis
      by (subst show_nat.simps) (simp add: show_nat_nonempty)
  qed
qed

lemma parse_nat_show_nat:
  assumes "rest = [] \<or> \<not> is_digit (hd rest)"
  shows "parse_nat (show_nat n @ rest) = Some (n, rest)"
proof (cases "show_nat n")
  case Nil
  then show ?thesis using show_nat_nonempty by simp
next
  case (Cons c cs)
  have digs: "\<forall>x \<in> set (c # cs). is_digit x"
    using show_nat_digits [of _ n] Cons by auto
  show ?thesis
  proof (cases "n = 0")
    case True
    then have "show_nat n = [0x30]" by (subst show_nat.simps) (simp add: digit_char_def)
    with True show ?thesis by (simp add: parse_nat_def)
  next
    case False
    then have "c \<noteq> 0x30" using hd_show_nat [of n] Cons by simp
    moreover have "parse_digits (cs @ rest) (unat c - 48) = (digits_value (unat c - 48) cs, rest)"
      using digs assms by (intro parse_digits_all) auto
    moreover have "digits_value (unat c - 48) cs = digits_value 0 (c # cs)"
      by (simp add: digits_value_def)
    ultimately show ?thesis
      using digs Cons digits_value_show_nat [of n] by (simp add: parse_nat_def)
  qed
qed

lemma number_end_digit: "number_end rest \<Longrightarrow> rest = [] \<or> \<not> is_digit (hd rest)"
  by (auto simp: number_end_def is_digit_def)

lemma number_end_float: "number_end rest \<Longrightarrow> \<not> float_follows rest"
  by (cases rest) (auto simp: number_end_def float_follows_def)

lemma hd_show_nat_digit: "is_digit (hd (show_nat n))"
  using show_nat_digits [of "hd (show_nat n)" n] show_nat_nonempty [of n] by simp

lemma parse_number_show_int:
  assumes "number_end rest"
  shows "parse_number (show_int i @ rest) = Some (JNum i, rest)"
proof (cases "i < 0")
  case True
  then show ?thesis
    using assms
    by (simp add: parse_number_def show_int_def parse_nat_show_nat number_end_digit number_end_float)
next
  case False
  obtain c cs where sn: "show_nat (nat i) = c # cs"
    using show_nat_nonempty [of "nat i"] by (cases "show_nat (nat i)") auto
  have "is_digit c" using hd_show_nat_digit [of "nat i"] sn by simp
  then have "c \<noteq> 0x2D" by (auto simp: is_digit_def)
  moreover have "parse_nat (c # cs @ rest) = Some (nat i, rest)"
    using parse_nat_show_nat [of rest "nat i"] assms sn by (simp add: number_end_digit)
  ultimately show ?thesis
    using False assms by (simp add: parse_number_def show_int_def sn number_end_float)
qed

lemma parse_literal_show_int:
  assumes "number_end rest"
  shows "parse_literal (show_int i @ rest) = Some (JNum i, rest)"
proof -
  have "hd (show_int i) = 0x2D \<or> is_digit (hd (show_int i))"
    using hd_show_nat_digit by (simp add: show_int_def)
  moreover obtain c cs where "show_int i = c # cs"
    using show_nat_nonempty by (cases "show_int i") (auto simp: show_int_def split: if_splits)
  ultimately have "take 4 (show_int i @ rest) \<noteq> js ''true''" "take 5 (show_int i @ rest) \<noteq> js ''false''"
    "take 4 (show_int i @ rest) \<noteq> js ''null''"
    by (auto simp: js_def is_digit_def)
  then show ?thesis
    using assms by (simp add: parse_literal_def parse_number_show_int)
qed

subsection \<open>Blanks before a value\<close>

lemma skip_ws_blanks: "\<forall>c \<in> set ws. is_json_ws c \<Longrightarrow> skip_ws (ws @ s) = skip_ws s"
  by (simp add: skip_ws_def dropWhile_append2)

lemma skip_ws_start: "\<not> is_json_ws c \<Longrightarrow> skip_ws (c # s) = c # s"
  by (simp add: skip_ws_def)

lemma blanks_indent: "\<forall>c \<in> set (indent n). is_json_ws c"
  by (simp add: indent_def is_json_ws_def)

lemma blanks_nl_indent: "\<forall>c \<in> set (0x0A # indent n). is_json_ws c"
  by (simp add: indent_def is_json_ws_def)

lemma parse_value_blanks:
  "\<forall>c \<in> set ws. is_json_ws c \<Longrightarrow> parse_value f (ws @ s) = parse_value f s"
  by (cases f) (simp_all add: skip_ws_blanks)

lemma parse_elems_blanks:
  "\<forall>c \<in> set ws. is_json_ws c \<Longrightarrow> parse_elems f (ws @ s) = parse_elems f s"
  by (cases f) (simp_all add: parse_value_blanks)

lemma parse_members_blanks:
  "\<forall>c \<in> set ws. is_json_ws c \<Longrightarrow> parse_members f (ws @ s) = parse_members f s"
  by (cases f) (simp_all add: skip_ws_blanks)

lemma skip_ws_close:
  "\<not> is_json_ws c \<Longrightarrow> skip_ws (0x0A # indent n @ c # rest) = c # rest"
proof -
  assume c: "\<not> is_json_ws c"
  have "skip_ws ((0x0A # indent n) @ c # rest) = skip_ws (c # rest)"
    using blanks_nl_indent by (rule skip_ws_blanks)
  with c show ?thesis by (simp add: skip_ws_start)
qed

subsection \<open>How a serialised value starts\<close>

lemma ser_start: "\<exists>c cs. ser n v = c # cs \<and> value_start c"
proof (cases v)
  case (JNum i)
  obtain c cs where sn: "show_nat (nat (- i)) = c # cs" "is_digit c"
    using hd_show_nat_digit [of "nat (- i)"] show_nat_nonempty [of "nat (- i)"]
    by (cases "show_nat (nat (- i))") auto
  obtain d ds where sp: "show_nat (nat i) = d # ds" "is_digit d"
    using hd_show_nat_digit [of "nat i"] show_nat_nonempty [of "nat i"]
    by (cases "show_nat (nat i)") auto
  show ?thesis
    using JNum sn sp
    by (auto simp: show_int_def value_start_def is_json_ws_def is_digit_def)
qed (auto simp: js_def quote_def value_start_def is_json_ws_def)

lemma join_Cons: "join sep (p # ps) = p @ (if ps = [] then [] else sep @ join sep ps)"
  by (cases ps) simp_all

subsection \<open>Elements and members\<close>

lemma parse_elems_join:
  assumes "\<And>x f r. x \<in> set xs \<Longrightarrow> number_end r \<Longrightarrow> fuel_of x \<le> f \<Longrightarrow>
             parse_value f (ser m x @ r) = Some (x, r)"
    and "xs \<noteq> []"
    and "sum_list (map (\<lambda>x. Suc (fuel_of x)) xs) \<le> f"
  shows "parse_elems f
           (join [0x2C, 0x0A] (map (\<lambda>x. indent m @ ser m x) xs) @ 0x0A # indent n @ 0x5D # rest)
         = Some (xs, rest)"
  using assms
proof (induction xs arbitrary: f)
  case Nil
  then show ?case by simp
next
  case (Cons x xs)
  from Cons.prems(3) obtain f' where f: "f = Suc f'" and fx: "fuel_of x \<le> f'"
    and fxs: "sum_list (map (\<lambda>x. Suc (fuel_of x)) xs) \<le> f'"
    by (cases f) auto
  let ?tail = "0x0A # indent n @ 0x5D # rest"
  show ?case
  proof (cases "xs = []")
    case True
    have ne: "number_end ?tail" by (simp add: number_end_def)
    have "parse_value f' (indent m @ ser m x @ ?tail) = parse_value f' (ser m x @ ?tail)"
      using blanks_indent by (rule parse_value_blanks)
    also have "\<dots> = Some (x, ?tail)"
      using ne fx by (intro Cons.prems(1)) simp_all
    finally have pv: "parse_value f' (indent m @ ser m x @ ?tail) = Some (x, ?tail)" .
    have close: "skip_ws ?tail = 0x5D # rest"
      by (rule skip_ws_close) (simp add: is_json_ws_def)
    show ?thesis
      using True by (simp add: f pv close)
  next
    case False
    let ?more = "join [0x2C, 0x0A] (map (\<lambda>x. indent m @ ser m x) xs) @ ?tail"
    let ?r = "0x2C # 0x0A # ?more"
    have ne: "number_end ?r" by (simp add: number_end_def)
    have "parse_value f' (indent m @ ser m x @ ?r) = parse_value f' (ser m x @ ?r)"
      using blanks_indent by (rule parse_value_blanks)
    also have "\<dots> = Some (x, ?r)"
      using ne fx by (intro Cons.prems(1)) simp_all
    finally have pv: "parse_value f' (indent m @ ser m x @ ?r) = Some (x, ?r)" .
    have comma: "skip_ws ?r = ?r"
      by (rule skip_ws_start) (simp add: is_json_ws_def)
    have "parse_elems f' ([0x0A] @ ?more) = parse_elems f' ?more"
      by (rule parse_elems_blanks) (simp add: is_json_ws_def)
    also have "\<dots> = Some (xs, rest)"
      using False fxs Cons.prems(1) by (intro Cons.IH) simp_all
    finally have rest: "parse_elems f' (0x0A # ?more) = Some (xs, rest)" by simp
    have shape: "join [0x2C, 0x0A] (map (\<lambda>x. indent m @ ser m x) (x # xs)) @ ?tail
        = indent m @ ser m x @ ?r"
      using False by (simp add: join_Cons)
    show ?thesis
      unfolding shape f by (simp add: pv comma rest cons_result_def)
  qed
qed

lemma parse_members_join:
  assumes "\<And>kv f r. kv \<in> set kvs \<Longrightarrow> number_end r \<Longrightarrow> fuel_of (snd kv) \<le> f \<Longrightarrow>
             parse_value f (ser m (snd kv) @ r) = Some (snd kv, r)"
    and "kvs \<noteq> []"
    and "sum_list (map (\<lambda>kv. Suc (fuel_of (snd kv))) kvs) \<le> f"
  shows "parse_members f
           (join [0x2C, 0x0A]
              (map (\<lambda>kv. indent m @ quote (fst kv) @ 0x3A # 0x20 # ser m (snd kv)) kvs)
            @ 0x0A # indent n @ 0x7D # rest)
         = Some (kvs, rest)"
  using assms
proof (induction kvs arbitrary: f)
  case Nil
  then show ?case by simp
next
  case (Cons kv kvs)
  obtain k v where kv: "kv = (k, v)" by (cases kv)
  from Cons.prems(3) obtain f' where f: "f = Suc f'" and fx: "fuel_of v \<le> f'"
    and fxs: "sum_list (map (\<lambda>kv. Suc (fuel_of (snd kv))) kvs) \<le> f'"
    by (cases f) (auto simp: kv)
  let ?tail = "0x0A # indent n @ 0x7D # rest"
  have key: "skip_ws (indent m @ quote k @ 0x3A # 0x20 # ser m v @ r)
      = 0x22 # quote_units k @ 0x22 # 0x3A # 0x20 # ser m v @ r" for r
  proof -
    have "skip_ws (indent m @ quote k @ 0x3A # 0x20 # ser m v @ r)
        = skip_ws (quote k @ 0x3A # 0x20 # ser m v @ r)"
      using blanks_indent by (rule skip_ws_blanks)
    then show ?thesis by (simp add: quote_def skip_ws_start is_json_ws_def)
  qed
  have colon: "skip_ws (0x3A # 0x20 # ser m v @ r) = 0x3A # 0x20 # ser m v @ r" for r
    by (rule skip_ws_start) (simp add: is_json_ws_def)
  have val: "number_end r \<Longrightarrow> parse_value f' (0x20 # ser m v @ r) = Some (v, r)" for r
  proof -
    assume ne: "number_end r"
    have "parse_value f' ([0x20] @ ser m v @ r) = parse_value f' (ser m v @ r)"
      by (rule parse_value_blanks) (simp add: is_json_ws_def)
    also have "\<dots> = Some (snd kv, r)"
    proof -
      have "kv \<in> set (kv # kvs)" by simp
      from Cons.prems(1) [OF this ne] fx show ?thesis by (simp add: kv)
    qed
    finally show ?thesis by (simp add: kv)
  qed
  show ?case
  proof (cases "kvs = []")
    case True
    have ne: "number_end ?tail" by (simp add: number_end_def)
    have close: "skip_ws ?tail = 0x7D # rest"
      by (rule skip_ws_close) (simp add: is_json_ws_def)
    show ?thesis
      using True
      by (simp add: f kv key parse_str_quote_units colon val [OF ne] close)
  next
    case False
    let ?more = "join [0x2C, 0x0A]
        (map (\<lambda>kv. indent m @ quote (fst kv) @ 0x3A # 0x20 # ser m (snd kv)) kvs) @ ?tail"
    let ?r = "0x2C # 0x0A # ?more"
    have ne: "number_end ?r" by (simp add: number_end_def)
    have comma: "skip_ws ?r = ?r"
      by (rule skip_ws_start) (simp add: is_json_ws_def)
    have "parse_members f' ([0x0A] @ ?more) = parse_members f' ?more"
      by (rule parse_members_blanks) (simp add: is_json_ws_def)
    also have "\<dots> = Some (kvs, rest)"
      using False fxs Cons.prems(1) by (intro Cons.IH) simp_all
    finally have rest: "parse_members f' (0x0A # ?more) = Some (kvs, rest)" by simp
    have shape: "join [0x2C, 0x0A]
          (map (\<lambda>kv. indent m @ quote (fst kv) @ 0x3A # 0x20 # ser m (snd kv)) (kv # kvs)) @ ?tail
        = indent m @ quote k @ 0x3A # 0x20 # ser m v @ ?r"
      using False by (simp add: join_Cons kv)
    show ?thesis
      unfolding shape f
      by (simp add: key parse_str_quote_units colon val [OF ne] comma rest cons_result_def kv)
  qed
qed

subsection \<open>Objects with distinct keys are rebuilt as they were\<close>

lemma obj_set_fresh: "k \<notin> fst ` set kvs \<Longrightarrow> obj_set kvs k v = kvs @ [(k, v)]"
  by (induction kvs) auto

lemma foldl_obj_set_distinct:
  "distinct (map fst (acc @ ms)) \<Longrightarrow>
     foldl (\<lambda>obj kv. obj_set obj (fst kv) (snd kv)) acc ms = acc @ ms"
proof (induction ms arbitrary: acc)
  case Nil
  show ?case by simp
next
  case (Cons kv ms)
  have fresh: "fst kv \<notin> fst ` set acc" using Cons.prems by auto
  have "distinct (map fst ((acc @ [kv]) @ ms))" using Cons.prems by simp
  then have "foldl (\<lambda>obj kv. obj_set obj (fst kv) (snd kv)) (acc @ [kv]) ms = (acc @ [kv]) @ ms"
    by (rule Cons.IH)
  then show ?case by (simp add: obj_set_fresh [OF fresh])
qed

lemma obj_of_members_distinct: "distinct (map fst ms) \<Longrightarrow> obj_of_members ms = JObj ms"
  using foldl_obj_set_distinct [of "[]" ms] by (simp add: obj_of_members_def)

subsection \<open>Parsing what was serialised\<close>

lemma skip_ws_first:
  assumes "\<not> is_json_ws c"
  shows "\<exists>t. skip_ws (0x0A # join sep ((indent m @ c # cs) # ps) @ tail) = c # t"
proof -
  have "skip_ws ((0x0A # indent m) @ c # cs @ (if ps = [] then [] else sep @ join sep ps) @ tail)
      = skip_ws (c # cs @ (if ps = [] then [] else sep @ join sep ps) @ tail)"
    using blanks_nl_indent by (rule skip_ws_blanks)
  then show ?thesis
    using assms by (simp add: join_Cons skip_ws_start)
qed

lemma parse_value_ser:
  "wf_json v \<Longrightarrow> number_end rest \<Longrightarrow> fuel_of v \<le> f \<Longrightarrow>
     parse_value f (ser n v @ rest) = Some (v, rest)"
proof (induction v arbitrary: n f rest)
  case JNull
  then obtain f' where "f = Suc f'" by (cases f) auto
  then show ?case
    by (simp add: js_def skip_ws_start is_json_ws_def parse_literal_def)
next
  case (JBool b)
  then obtain f' where "f = Suc f'" by (cases f) auto
  then show ?case
    by (simp add: js_def skip_ws_start is_json_ws_def parse_literal_def)
next
  case (JNum i)
  then obtain f' where f: "f = Suc f'" by (cases f) auto
  obtain c cs where s: "ser n (JNum i) = c # cs" and c: "value_start c"
    using ser_start by blast
  have "c = 0x2D \<or> is_digit c"
    using s hd_show_nat_digit [of "nat i"] hd_show_nat_digit [of "nat (- i)"]
    by (auto simp: show_int_def split: if_splits)
  then have disp: "c \<noteq> 0x22" "c \<noteq> 0x5B" "c \<noteq> 0x7B"
    by (auto simp: is_digit_def)
  have "skip_ws (c # cs @ rest) = c # cs @ rest"
    using c by (simp add: skip_ws_start value_start_def)
  moreover have "parse_literal (c # cs @ rest) = Some (JNum i, rest)"
    using parse_literal_show_int [OF JNum.prems(2), of i] s by simp
  ultimately have "parse_value (Suc f') ((c # cs) @ rest) = Some (JNum i, rest)"
    using disp by simp
  then show ?case unfolding f s .
next
  case (JStr s)
  then obtain f' where "f = Suc f'" by (cases f) auto
  then show ?case
    by (simp add: quote_def skip_ws_start is_json_ws_def parse_str_quote_units)
next
  case (JArr xs)
  from JArr.prems(3) obtain f' where f: "f = Suc f'"
    and fxs: "sum_list (map (\<lambda>x. Suc (fuel_of x)) xs) \<le> f'"
    by (cases f) auto
  show ?case
  proof (cases "xs = []")
    case True
    then show ?thesis
      by (simp add: f js_def skip_ws_start is_json_ws_def)
  next
    case False
    define m where "m = n + 2"
    let ?items = "map (\<lambda>x. indent m @ ser m x) xs"
    let ?body = "join [0x2C, 0x0A] ?items @ 0x0A # indent n @ 0x5D # rest"
    have shape: "ser n (JArr xs) @ rest = 0x5B # 0x0A # ?body"
      using False by (simp add: m_def)
    have elems: "parse_elems f' ?body = Some (xs, rest)"
    proof (rule parse_elems_join [OF _ False fxs])
      fix x g r
      assume "x \<in> set xs" "number_end r" "fuel_of x \<le> g"
      then show "parse_value g (ser m x @ r) = Some (x, r)"
        using JArr.prems(1) by (intro JArr.IH) auto
    qed
    have "parse_elems f' ([0x0A] @ ?body) = parse_elems f' ?body"
      by (rule parse_elems_blanks) (simp add: is_json_ws_def)
    with elems have elems': "parse_elems f' (0x0A # ?body) = Some (xs, rest)" by simp
    obtain x xs' where xs: "xs = x # xs'" using False by (cases xs) auto
    obtain c cs where sx: "ser m x = c # cs" and c: "value_start c"
      using ser_start by blast
    have "\<exists>t. skip_ws (0x0A # ?body) = c # t"
      using c unfolding xs list.map sx by (intro skip_ws_first) (simp add: value_start_def)
    then have notclose: "take 1 (skip_ws (0x0A # ?body)) \<noteq> [0x5D]"
      using c by (auto simp: value_start_def)
    have "parse_value (Suc f') (0x5B # 0x0A # ?body) = Some (JArr xs, rest)"
      using notclose elems' by (simp add: skip_ws_start is_json_ws_def)
    then show ?thesis
      unfolding shape f .
  qed
next
  case (JObj kvs)
  from JObj.prems(3) obtain f' where f: "f = Suc f'"
    and fxs: "sum_list (map (\<lambda>kv. Suc (fuel_of (snd kv))) kvs) \<le> f'"
    by (cases f) auto
  show ?case
  proof (cases "kvs = []")
    case True
    then show ?thesis
      by (simp add: f js_def skip_ws_start is_json_ws_def)
  next
    case False
    define m where "m = n + 2"
    let ?items = "map (\<lambda>kv. indent m @ quote (fst kv) @ 0x3A # 0x20 # ser m (snd kv)) kvs"
    let ?body = "join [0x2C, 0x0A] ?items @ 0x0A # indent n @ 0x7D # rest"
    have shape: "ser n (JObj kvs) @ rest = 0x7B # 0x0A # ?body"
      using False by (simp add: m_def)
    have members: "parse_members f' ?body = Some (kvs, rest)"
    proof (rule parse_members_join [OF _ False fxs])
      fix kv g r
      assume kv: "kv \<in> set kvs" and "number_end r" "fuel_of (snd kv) \<le> g"
      moreover have "snd kv \<in> Basic_BNFs.snds kv" by (cases kv) simp
      moreover have "wf_json (snd kv)" using JObj.prems(1) kv by simp
      ultimately show "parse_value g (ser m (snd kv) @ r) = Some (snd kv, r)"
        by (intro JObj.IH)
    qed
    have "parse_members f' ([0x0A] @ ?body) = parse_members f' ?body"
      by (rule parse_members_blanks) (simp add: is_json_ws_def)
    with members have members': "parse_members f' (0x0A # ?body) = Some (kvs, rest)" by simp
    obtain kv kvs' where kvs: "kvs = kv # kvs'" using False by (cases kvs) auto
    have "\<exists>t. skip_ws (0x0A # ?body) = 0x22 # t"
      unfolding kvs list.map quote_def append_Cons by (intro skip_ws_first) (simp add: is_json_ws_def)
    then have notclose: "take 1 (skip_ws (0x0A # ?body)) \<noteq> [0x7D]"
      by auto
    have "distinct (map fst kvs)" using JObj.prems(1) by simp
    then have "obj_of_members kvs = JObj kvs" by (rule obj_of_members_distinct)
    then have "parse_value (Suc f') (0x7B # 0x0A # ?body) = Some (JObj kvs, rest)"
      using notclose members' by (simp add: skip_ws_start is_json_ws_def)
    then show ?thesis
      unfolding shape f .
  qed
qed

subsection \<open>The fuel of JSON.parse is enough\<close>

lemma join_length:
  "sum_list (map (\<lambda>p. Suc (length p)) ps) \<le> Suc (Suc (length (join [a, b] ps)))"
  by (induction "[a, b]" ps rule: join.induct) simp_all

lemma sum_items:
  assumes "\<And>x. x \<in> set xs \<Longrightarrow> g x \<le> length (h x)"
  shows "Suc (sum_list (map (\<lambda>x. Suc (g x)) xs)) \<le> length (join [a, b] (map h xs)) + 3"
proof -
  have "sum_list (map (\<lambda>x. Suc (g x)) xs) \<le> sum_list (map (\<lambda>x. Suc (length (h x))) xs)"
    using assms by (intro sum_list_mono) simp
  also have "\<dots> = sum_list (map (\<lambda>p. Suc (length p)) (map h xs))"
    by (simp add: comp_def)
  also have "\<dots> \<le> Suc (Suc (length (join [a, b] (map h xs))))"
    by (rule join_length)
  finally show ?thesis by simp
qed

lemma fuel_of_le_length: "fuel_of v \<le> length (ser n v)"
proof (induction v arbitrary: n)
  case (JNum i)
  show ?case
    using show_nat_nonempty [of "nat i"]
    by (cases "show_nat (nat i)") (simp_all add: show_int_def)
next
  case (JArr xs)
  have "Suc (sum_list (map (\<lambda>x. Suc (fuel_of x)) xs))
      \<le> length (join [0x2C, 0x0A] (map (\<lambda>x. indent (n + 2) @ ser (n + 2) x) xs)) + 3"
  proof (rule sum_items)
    fix x assume "x \<in> set xs"
    then have "fuel_of x \<le> length (ser (n + 2) x)" by (rule JArr.IH)
    then show "fuel_of x \<le> length (indent (n + 2) @ ser (n + 2) x)" by simp
  qed
  then show ?case by (simp add: js_def)
next
  case (JObj kvs)
  have "Suc (sum_list (map (\<lambda>kv. Suc (fuel_of (snd kv))) kvs))
      \<le> length (join [0x2C, 0x0A]
          (map (\<lambda>kv. indent (n + 2) @ quote (fst kv) @ [0x3A, 0x20] @ ser (n + 2) (snd kv)) kvs)) + 3"
  proof (rule sum_items)
    fix kv assume kv: "kv \<in> set kvs"
    have "snd kv \<in> Basic_BNFs.snds kv" by (cases kv) simp
    with kv have "fuel_of (snd kv) \<le> length (ser (n + 2) (snd kv))" by (rule JObj.IH)
    then show "fuel_of (snd kv)
        \<le> length (indent (n + 2) @ quote (fst kv) @ [0x3A, 0x20] @ ser (n + 2) (snd kv))"
      by simp
  qed
  then show ?case by (simp add: js_def)
qed (simp_all add: js_def quote_def)

lemma JSON_parse_stringify:
  assumes "wf_json v"
  shows "JSON_parse (JSON_stringify v @ [0x0A]) = Some v"
proof -
  have "fuel_of v \<le> Suc (length (ser 0 v @ [0x0A]))"
    using fuel_of_le_length [of v 0] by simp
  moreover have "number_end [0x0A]" by (simp add: number_end_def)
  ultimately have "parse_value (Suc (length (ser 0 v @ [0x0A]))) (ser 0 v @ [0x0A]) = Some (v, [0x0A])"
    using assms by (intro parse_value_ser)
  then show ?thesis
    by (simp add: JSON_parse_def JSON_stringify_def skip_ws_def is_json_ws_def)
qed

section \<open>The queue, one caller at a time\<close>

lemma first_unsettled_None: "(\<forall>n \<in> set ns. settled (wstatus n)) \<Longrightarrow> first_unsettled ns = None"
proof -
  assume a: "\<forall>n \<in> set ns. settled (wstatus n)"
  have "filter (\<lambda>i. \<not> settled (wstatus (ns ! i))) [0..<length ns] = []"
    using a by (simp add: filter_empty_conv)
  then show ?thesis by (simp add: first_unsettled_def)
qed

lemma first_unsettled_last:
  assumes "\<forall>n \<in> set ns. settled (wstatus n)" and "\<not> settled (wstatus n)"
  shows "first_unsettled (ns @ [n]) = Some (length ns)"
proof -
  have "filter (\<lambda>i. \<not> settled (wstatus ((ns @ [n]) ! i))) [0..<length ns] = []"
    using assms(1) by (simp add: filter_empty_conv nth_append)
  then show ?thesis
    using assms(2) by (simp add: first_unsettled_def)
qed

lemma tick_first_quiescent: "quiescent w \<Longrightarrow> tick_first w = w"
  by (simp add: tick_first_def quiescent_def first_unsettled_None)

lemma funpow_fixed: "f x = x \<Longrightarrow> (f ^^ k) x = x"
  by (induction k) simp_all

lemma drain_three:
  assumes "quiescent w3" and "length (chain w0) = Suc k" and "length (chain w3) = Suc k'"
    and "tick_first (tick_first (tick_first w0)) = w3"
  shows "drain w0 = w3"
proof -
  have "(tick_first ^^ (3 * Suc k)) w0 = (tick_first ^^ (3 * k)) ((tick_first ^^ 3) w0)"
    by (simp add: funpow_swap1 eval_nat_numeral)
  also have "(tick_first ^^ 3) w0 = w3"
    using assms(4) by (simp add: eval_nat_numeral)
  also have "(tick_first ^^ (3 * k)) w3 = w3"
    using assms(1) by (intro funpow_fixed tick_first_quiescent)
  finally show ?thesis by (simp add: drain_def assms(2))
qed

lemma idle_settled: "idle w \<Longrightarrow> \<forall>n \<in> set (chain w). settled (wstatus n)"
  by (simp add: idle_def settled_def)

lemma idle_pred: "idle w \<Longrightarrow> pred_status (chain w @ [n]) (length (chain w)) = Fulfilled"
  by (cases "chain w" rule: rev_cases) (simp_all add: pred_status_def idle_def nth_append)

lemma tick_pending_idle:
  assumes "idle w" and "fault (disk w) (Mkdir (dirname p)) = None"
  shows "tick_first (w\<lparr>chain := chain w @ [\<lparr>wpath = p, wvalue = v, wstatus = Pending\<rparr>]\<rparr>)
       = w\<lparr>chain := chain w @ [\<lparr>wpath = p, wvalue = v, wstatus = MkdirDone\<rparr>],
           trace := trace w @ [(length (chain w), Mkdir (dirname p))]\<rparr>"
proof -
  let ?n = "\<lparr>wpath = p, wvalue = v, wstatus = Pending\<rparr>"
  have fu: "first_unsettled (chain w @ [?n]) = Some (length (chain w))"
    using idle_settled [OF assms(1)] by (intro first_unsettled_last) (simp_all add: settled_def)
  show ?thesis
    using assms(2) idle_pred [OF assms(1), of ?n]
    by (simp add: tick_first_def fu tick_def Let_def after_call_def fs_mkdir_def set_status_def)
qed

lemma tick_mkdir_done:
  assumes "idle w" and "fault (disk w) (WriteFile (p @ js ''.tmp'')) = None"
  shows "tick_first (w\<lparr>chain := chain w @ [\<lparr>wpath = p, wvalue = v, wstatus = MkdirDone\<rparr>], trace := t\<rparr>)
       = w\<lparr>disk := (disk w)\<lparr>files := (files (disk w))(p @ js ''.tmp'' \<mapsto> JSON_stringify v @ [0x0A])\<rparr>,
           chain := chain w @ [\<lparr>wpath = p, wvalue = v, wstatus = TmpWritten\<rparr>],
           trace := t @ [(length (chain w), WriteFile (p @ js ''.tmp''))]\<rparr>"
proof -
  let ?n = "\<lparr>wpath = p, wvalue = v, wstatus = MkdirDone\<rparr>"
  have fu: "first_unsettled (chain w @ [?n]) = Some (length (chain w))"
    using idle_settled [OF assms(1)] by (intro first_unsettled_last) (simp_all add: settled_def)
  show ?thesis
    using assms(2)
    by (simp add: tick_first_def fu tick_def Let_def after_call_def fs_writeFile_def set_status_def)
qed

lemma tick_tmp_written:
  assumes "idle w" and "fault d (Rename (p @ js ''.tmp'') p) = None"
    and "files d (p @ js ''.tmp'') = Some raw"
  shows "tick_first (w\<lparr>disk := d, chain := chain w @ [\<lparr>wpath = p, wvalue = v, wstatus = TmpWritten\<rparr>], trace := t\<rparr>)
       = w\<lparr>disk := d\<lparr>files := ((files d)(p @ js ''.tmp'' := None))(p \<mapsto> raw)\<rparr>,
           chain := chain w @ [\<lparr>wpath = p, wvalue = v, wstatus = Fulfilled\<rparr>],
           trace := t @ [(length (chain w), Rename (p @ js ''.tmp'') p)]\<rparr>"
proof -
  let ?n = "\<lparr>wpath = p, wvalue = v, wstatus = TmpWritten\<rparr>"
  have fu: "first_unsettled (chain w @ [?n]) = Some (length (chain w))"
    using idle_settled [OF assms(1)] by (intro first_unsettled_last) (simp_all add: settled_def)
  show ?thesis
    using assms(2,3)
    by (simp add: tick_first_def fu tick_def Let_def after_call_def fs_rename_def set_status_def)
qed

lemma await_write_idle:
  assumes "idle w" and "can_write (disk w) p"
  shows "await_write w p v = (written w p v, Inr ())"
proof -
  let ?tmp = "p @ js ''.tmp''"
  let ?raw = "JSON_stringify v @ [0x0A]"
  have m: "fault (disk w) (Mkdir (dirname p)) = None"
    and wf: "fault (disk w) (WriteFile ?tmp) = None"
    and rn: "fault (disk w) (Rename ?tmp p) = None"
    using assms(2) by (simp_all add: can_write_def)
  have three: "tick_first (tick_first (tick_first (writeJsonAtomic w p v))) = written w p v"
    unfolding writeJsonAtomic_def tick_pending_idle [OF assms(1) m]
    apply (subst tick_mkdir_done [OF assms(1) wf])
    apply (subst tick_tmp_written [OF assms(1), where raw = ?raw])
    using rn apply simp
     apply simp
    apply (simp add: written_def)
    done
  have q: "quiescent (written w p v)"
    using idle_settled [OF assms(1)] by (simp add: quiescent_def written_def settled_def)
  have "drain (writeJsonAtomic w p v) = written w p v"
    using q _ _ three by (rule drain_three) (simp_all add: writeJsonAtomic_def written_def)
  then show ?thesis
    by (simp add: await_write_def Let_def written_def outcome_def)
qed

lemma idle_written: "idle w \<Longrightarrow> idle (written w p v)"
  by (simp add: idle_def written_def)

section \<open>The queue under interleaved callers\<close>

lemma calls_from_append:
  "calls_from i (ops @ [op]) = calls_from i ops @ calls_of_op (i + length ops) op"
  by (induction ops arbitrary: i) simp_all

lemma length_calls_of_op: "length (calls_of_op i op) = 3"
  by (simp add: calls_of_op_def)

lemma length_calls_from: "length (calls_from i ops) = 3 * length ops"
  by (induction ops arbitrary: i) (simp_all add: length_calls_of_op)

lemma nth_calls_from:
  "i < length ops \<Longrightarrow> k < 3 \<Longrightarrow> calls_from b ops ! (3 * i + k) = calls_of_op (b + i) (ops ! i) ! k"
proof (induction ops arbitrary: i b)
  case Nil
  then show ?case by simp
next
  case (Cons op ops)
  show ?case
  proof (cases i)
    case 0
    with Cons.prems show ?thesis by (simp add: nth_append length_calls_of_op)
  next
    case (Suc j)
    have "calls_from b (op # ops) ! (3 * i + k) = calls_from (Suc b) ops ! (3 * j + k)"
      using Suc by (simp add: nth_append length_calls_of_op)
    also have "\<dots> = calls_of_op (Suc b + j) (ops ! j) ! k"
      using Cons.prems Suc by (intro Cons.IH) simp_all
    finally show ?thesis using Suc by simp
  qed
qed

lemma take_Suc_calls:
  assumes "i < length ops" "k < 3"
  shows "take (Suc (3 * i + k)) (calls_from 0 ops)
       = take (3 * i + k) (calls_from 0 ops) @ [calls_of_op i (ops ! i) ! k]"
proof -
  have "3 * i + k < length (calls_from 0 ops)"
    using assms by (simp add: length_calls_from)
  then show ?thesis
    using nth_calls_from [OF assms, of 0] by (simp add: take_Suc_conv_app_nth)
qed

lemma ops_of_enqueue: "ops_of (writeJsonAtomic w p v) = ops_of w @ [(p, v)]"
  by (simp add: ops_of_def writeJsonAtomic_def)

lemma stat_of_fresh: "t \<le> 3 * n \<Longrightarrow> stat_of t n = Pending"
  by (simp add: stat_of_def)

lemma queue_inv_enqueue:
  assumes "queue_inv w"
  shows "queue_inv (writeJsonAtomic w p v)"
proof -
  let ?t = "length (trace w)"
  let ?ops = "ops_of w"
  from assms have nf: "no_faults (disk w)" and t: "?t \<le> 3 * length ?ops"
    and tr: "trace w = take ?t (calls_from 0 ?ops)"
    and st: "\<forall>i < length ?ops. wstatus (chain w ! i) = stat_of ?t i"
    and d2: "?t mod 3 = 2 \<longrightarrow> files (disk w) (fst (?ops ! (?t div 3)) @ js ''.tmp'')
               = Some (JSON_stringify (snd (?ops ! (?t div 3))) @ [0x0A])"
    and d0: "?t mod 3 = 0 \<longrightarrow> 0 < ?t \<longrightarrow> files (disk w) (fst (?ops ! (?t div 3 - 1)))
               = Some (JSON_stringify (snd (?ops ! (?t div 3 - 1))) @ [0x0A])"
    by (simp_all add: queue_inv_def Let_def)
  have len: "length (chain w) = length ?ops" by (simp add: ops_of_def)
  have a: "trace w = take ?t (calls_from 0 (?ops @ [(p, v)]))"
    using tr t by (simp add: calls_from_append length_calls_from)
  have b: "\<forall>i < length (?ops @ [(p, v)]).
      wstatus ((chain w @ [\<lparr>wpath = p, wvalue = v, wstatus = Pending\<rparr>]) ! i) = stat_of ?t i"
    using st t len by (auto simp: nth_append stat_of_fresh less_Suc_eq)
  have "?t mod 3 = 2 \<longrightarrow> ?t div 3 < length ?ops"
    using t by presburger
  then have c: "?t mod 3 = 2 \<longrightarrow> (?ops @ [(p, v)]) ! (?t div 3) = ?ops ! (?t div 3)"
    by (simp add: nth_append)
  have "?t mod 3 = 0 \<longrightarrow> 0 < ?t \<longrightarrow> ?t div 3 - 1 < length ?ops"
    using t by presburger
  then have d: "?t mod 3 = 0 \<longrightarrow> 0 < ?t \<longrightarrow> (?ops @ [(p, v)]) ! (?t div 3 - 1) = ?ops ! (?t div 3 - 1)"
    by (simp add: nth_append)
  show ?thesis
    unfolding queue_inv_def Let_def ops_of_enqueue
    using nf t a b c d d2 d0 by (simp add: writeJsonAtomic_def)
qed

lemma map_update_same:
  assumes "f x = f (xs ! i)"
  shows "map f (xs[i := x]) = map f xs"
proof (rule nth_equalityI)
  show "length (map f (xs[i := x])) = length (map f xs)" by simp
next
  fix j assume "j < length (map f (xs[i := x]))"
  then have j: "j < length xs" by simp
  show "map f (xs[i := x]) ! j = map f xs ! j"
  proof (cases "j = i")
    case True
    with j assms show ?thesis by simp
  next
    case False
    with j show ?thesis by simp
  qed
qed

lemma ops_of_set_status: "ops_of (set_status i st w) = ops_of w"
  by (simp add: ops_of_def set_status_def map_update_same)

lemma queue_inv_call:
  assumes inv: "queue_inv w"
    and i: "i < length (ops_of w)" and k: "k < 3" and t: "length (trace w) = 3 * i + k"
    and c: "(i, c) = calls_of_op i (ops_of w ! i) ! k"
    and st: "st = stat_of (Suc (3 * i + k)) i"
    and fl: "fault d = fault (disk w)"
    and d2: "k = 1 \<Longrightarrow> files d (fst (ops_of w ! i) @ js ''.tmp'')
               = Some (JSON_stringify (snd (ops_of w ! i)) @ [0x0A])"
    and d0: "k = 2 \<Longrightarrow> files d (fst (ops_of w ! i))
               = Some (JSON_stringify (snd (ops_of w ! i)) @ [0x0A])"
  shows "queue_inv (set_status i st (w\<lparr>disk := d, trace := trace w @ [(i, c)]\<rparr>))"
proof -
  let ?ops = "ops_of w"
  let ?w' = "set_status i st (w\<lparr>disk := d, trace := trace w @ [(i, c)]\<rparr>)"
  from inv have nf: "no_faults (disk w)"
    and tr: "trace w = take (length (trace w)) (calls_from 0 ?ops)"
    and sts: "\<forall>j < length ?ops. wstatus (chain w ! j) = stat_of (length (trace w)) j"
    by (simp_all add: queue_inv_def Let_def)
  have ops: "ops_of ?w' = ?ops"
    by (simp add: ops_of_def set_status_def map_update_same)
  have len: "length (chain w) = length ?ops" by (simp add: ops_of_def)
  have t': "length (trace ?w') = Suc (3 * i + k)"
    using t by (simp add: set_status_def)
  have a: "no_faults (disk ?w')"
    using nf fl by (simp add: no_faults_def set_status_def)
  have b: "Suc (3 * i + k) \<le> 3 * length ?ops"
    using i k by simp
  have e: "trace ?w' = take (Suc (3 * i + k)) (calls_from 0 ?ops)"
    using tr t c take_Suc_calls [OF i k] by (simp add: set_status_def)
  have f: "\<forall>j < length ?ops. wstatus (chain ?w' ! j) = stat_of (Suc (3 * i + k)) j"
  proof (intro allI impI)
    fix j assume j: "j < length ?ops"
    show "wstatus (chain ?w' ! j) = stat_of (Suc (3 * i + k)) j"
    proof (cases "j = i")
      case True
      then show ?thesis using st i len by (simp add: set_status_def)
    next
      case False
      then have "wstatus (chain ?w' ! j) = stat_of (3 * i + k) j"
        using sts j t by (simp add: set_status_def)
      also have "\<dots> = stat_of (Suc (3 * i + k)) j"
        using False k by (auto simp: stat_of_def)
      finally show ?thesis .
    qed
  qed
  have g: "Suc (3 * i + k) mod 3 = 2 \<longrightarrow> k = 1 \<and> Suc (3 * i + k) div 3 = i"
    using k by presburger
  have h: "Suc (3 * i + k) mod 3 = 0 \<longrightarrow> k = 2 \<and> Suc (3 * i + k) div 3 - 1 = i"
    using k by presburger
  have disk: "disk ?w' = d" by (simp add: set_status_def)
  show ?thesis
    unfolding queue_inv_def Let_def ops t' disk
    using a b e f g h d2 d0 by (auto simp: disk)
qed

lemma queue_inv_tick_progress:
  assumes inv: "queue_inv w"
  shows "queue_inv (tick i w)
       \<and> (i < length (chain w) \<longrightarrow> length (trace w) div 3 = i \<longrightarrow>
            length (trace (tick i w)) = Suc (length (trace w)))"
proof (cases "i < length (chain w)")
  case False
  then show ?thesis using inv by (simp add: tick_def)
next
  case True
  let ?t = "length (trace w)"
  let ?ops = "ops_of w"
  let ?p = "wpath (chain w ! i)"
  let ?v = "wvalue (chain w ! i)"
  let ?tmp = "?p @ js ''.tmp''"
  let ?raw = "JSON_stringify ?v @ [0x0A]"
  have len: "length (chain w) = length ?ops" by (simp add: ops_of_def)
  have i: "i < length ?ops" using True len by simp
  have op: "?ops ! i = (?p, ?v)" using True by (simp add: ops_of_def)
  from inv have nf: "no_faults (disk w)"
    and sts: "\<forall>j < length ?ops. wstatus (chain w ! j) = stat_of ?t j"
    and d2: "?t mod 3 = 2 \<longrightarrow> files (disk w) (fst (?ops ! (?t div 3)) @ js ''.tmp'')
               = Some (JSON_stringify (snd (?ops ! (?t div 3))) @ [0x0A])"
    by (simp_all add: queue_inv_def Let_def)
  have st: "wstatus (chain w ! i) = stat_of ?t i" using sts i by simp
  have nofault: "fault (disk w) c = None" for c using nf by (simp add: no_faults_def)
  consider (c_done) "3 * i + 3 \<le> ?t" | (c_rename) "?t = 3 * i + 2" | (c_write) "?t = 3 * i + 1"
    | (c_start) "?t = 3 * i" | (c_wait) "?t < 3 * i"
    by linarith
  then show ?thesis
  proof cases
    case c_done
    then have "wstatus (chain w ! i) = Fulfilled" using st by (simp add: stat_of_def)
    moreover have "length (trace w) div 3 \<noteq> i" using c_done by presburger
    ultimately show ?thesis using inv True by (simp add: tick_def Let_def)
  next
    case c_rename
    then have s: "wstatus (chain w ! i) = TmpWritten" using st by (simp add: stat_of_def)
    have "?t mod 3 = 2" "?t div 3 = i" using c_rename by presburger+
    then have tmp: "files (disk w) ?tmp = Some ?raw" using d2 op by simp
    let ?d = "(disk w)\<lparr>files := ((files (disk w))(?tmp := None))(?p \<mapsto> ?raw)\<rparr>"
    have tk: "tick i w = set_status i Fulfilled (w\<lparr>disk := ?d, trace := trace w @ [(i, Rename ?tmp ?p)]\<rparr>)"
      using True s tmp by (simp add: tick_def Let_def after_call_def fs_rename_def nofault)
    have "queue_inv (tick i w)"
      unfolding tk
      by (rule queue_inv_call [OF inv i, where k = 2])
         (simp_all add: c_rename op calls_of_op_def stat_of_def)
    moreover have "length (trace (tick i w)) = Suc (length (trace w))"
      unfolding tk by (simp add: set_status_def)
    ultimately show ?thesis by simp
  next
    case c_write
    then have s: "wstatus (chain w ! i) = MkdirDone" using st by (simp add: stat_of_def)
    let ?d = "(disk w)\<lparr>files := (files (disk w))(?tmp \<mapsto> ?raw)\<rparr>"
    have tk: "tick i w = set_status i TmpWritten (w\<lparr>disk := ?d, trace := trace w @ [(i, WriteFile ?tmp)]\<rparr>)"
      using True s by (simp add: tick_def Let_def after_call_def fs_writeFile_def nofault)
    have "queue_inv (tick i w)"
      unfolding tk
      by (rule queue_inv_call [OF inv i, where k = 1])
         (simp_all add: c_write op calls_of_op_def stat_of_def)
    moreover have "length (trace (tick i w)) = Suc (length (trace w))"
      unfolding tk by (simp add: set_status_def)
    ultimately show ?thesis by simp
  next
    case c_start
    then have s: "wstatus (chain w ! i) = Pending" using st by (simp add: stat_of_def)
    have pred: "pred_status (chain w) i = Fulfilled"
    proof (cases i)
      case 0
      then show ?thesis by (simp add: pred_status_def)
    next
      case (Suc j)
      then have "wstatus (chain w ! j) = stat_of ?t j" using sts i by simp
      then show ?thesis using Suc c_start by (simp add: pred_status_def stat_of_def)
    qed
    have tk: "tick i w = set_status i MkdirDone
        (w\<lparr>disk := disk w, trace := trace w @ [(i, Mkdir (dirname ?p))]\<rparr>)"
      using True s pred by (simp add: tick_def Let_def after_call_def fs_mkdir_def nofault)
    have "queue_inv (tick i w)"
      unfolding tk
      by (rule queue_inv_call [OF inv i, where k = 0])
         (simp_all add: c_start op calls_of_op_def stat_of_def)
    moreover have "length (trace (tick i w)) = Suc (length (trace w))"
      unfolding tk by (simp add: set_status_def)
    ultimately show ?thesis by simp
  next
    case c_wait
    then have s: "wstatus (chain w ! i) = Pending" using st by (simp add: stat_of_def)
    obtain j where j: "i = Suc j" using c_wait by (cases i) auto
    have "wstatus (chain w ! j) = stat_of ?t j" using sts i j by simp
    moreover have "stat_of ?t j \<noteq> Fulfilled" "\<forall>e. stat_of ?t j \<noteq> Rejected e"
      using c_wait j by (auto simp: stat_of_def)
    ultimately have "tick i w = w"
      using True s j by (cases "stat_of ?t j") (simp_all add: tick_def Let_def pred_status_def)
    moreover have "length (trace w) div 3 \<noteq> i" using c_wait by presburger
    ultimately show ?thesis using inv by simp
  qed
qed

lemma queue_inv_tick: "queue_inv w \<Longrightarrow> queue_inv (tick i w)"
  using queue_inv_tick_progress by blast

lemma queue_inv_run: "queue_inv w \<Longrightarrow> queue_inv (run evs w)"
proof (induction evs arbitrary: w)
  case Nil
  then show ?case by (simp add: run_def)
next
  case (Cons e evs)
  have "queue_inv (apply_event w e)"
    using Cons.prems by (cases e) (simp_all add: queue_inv_enqueue queue_inv_tick)
  then have "queue_inv (run evs (apply_event w e))" by (rule Cons.IH)
  then show ?case by (simp add: run_def)
qed

lemma ops_of_tick: "ops_of (tick i w) = ops_of w"
proof -
  have a: "ops_of (after_call i c r st w) = ops_of w" for c r st
    by (cases r) (simp_all add: after_call_def ops_of_set_status, simp_all add: ops_of_def)
  show ?thesis
    by (simp add: tick_def Let_def a ops_of_set_status
        split: status.splits)
qed

lemma ops_of_run: "ops_of (run evs w) = ops_of w @ enqueued evs"
proof (induction evs arbitrary: w)
  case Nil
  show ?case by (simp add: run_def enqueued_def)
next
  case (Cons e evs)
  have "ops_of (run evs (apply_event w e)) = ops_of (apply_event w e) @ enqueued evs"
    by (rule Cons.IH)
  then show ?case
    by (cases e) (simp_all add: run_def enqueued_def ops_of_enqueue ops_of_tick)
qed

lemma first_unsettled_at:
  assumes "i < length ns" and "\<forall>j < i. settled (wstatus (ns ! j))" and "\<not> settled (wstatus (ns ! i))"
  shows "first_unsettled ns = Some i"
proof -
  have "[0..<length ns] = [0..<i] @ i # [Suc i..<length ns]"
  proof -
    have "[0..<length ns] = [0..<i] @ [i..<length ns]"
      using assms(1) upt_add_eq_append [of 0 i "length ns - i"] by simp
    then show ?thesis using assms(1) by (simp add: upt_conv_Cons)
  qed
  moreover have "filter (\<lambda>j. \<not> settled (wstatus (ns ! j))) [0..<i] = []"
    using assms(2) by (simp add: filter_empty_conv)
  ultimately show ?thesis
    using assms(3) by (simp add: first_unsettled_def)
qed

lemma queue_inv_all_done:
  assumes "queue_inv w" and "length (trace w) = 3 * length (chain w)"
  shows "\<forall>n \<in> set (chain w). wstatus n = Fulfilled"
proof -
  have len: "length (chain w) = length (ops_of w)" by (simp add: ops_of_def)
  have "\<forall>i < length (chain w). wstatus (chain w ! i) = Fulfilled"
    using assms len by (auto simp: queue_inv_def Let_def stat_of_def)
  then show ?thesis by (auto simp: in_set_conv_nth)
qed

lemma tick_first_progress:
  assumes inv: "queue_inv w"
  shows "queue_inv (tick_first w)
       \<and> length (trace (tick_first w)) = min (3 * length (chain w)) (Suc (length (trace w)))
       \<and> ops_of (tick_first w) = ops_of w"
proof -
  let ?t = "length (trace w)"
  have len: "length (chain w) = length (ops_of w)" by (simp add: ops_of_def)
  from inv have t: "?t \<le> 3 * length (chain w)"
    and sts: "\<forall>j < length (chain w). wstatus (chain w ! j) = stat_of ?t j"
    using len by (simp_all add: queue_inv_def Let_def)
  show ?thesis
  proof (cases "?t = 3 * length (chain w)")
    case True
    then have "quiescent w"
      using queue_inv_all_done [OF inv] by (simp add: quiescent_def settled_def)
    then have "tick_first w = w" by (rule tick_first_quiescent)
    then show ?thesis using inv True by simp
  next
    case False
    let ?i = "?t div 3"
    have i: "?i < length (chain w)" using t False by presburger
    have before: "\<forall>j < ?i. settled (wstatus (chain w ! j))"
    proof (intro allI impI)
      fix j assume j: "j < ?i"
      then have "3 * j + 3 \<le> ?t" by presburger
      moreover have "wstatus (chain w ! j) = stat_of ?t j" using sts j i by simp
      ultimately show "settled (wstatus (chain w ! j))" by (simp add: stat_of_def settled_def)
    qed
    have "\<not> 3 * ?i + 3 \<le> ?t" by presburger
    then have "\<not> settled (stat_of ?t ?i)" by (simp add: stat_of_def settled_def)
    then have "\<not> settled (wstatus (chain w ! ?i))" using sts i by simp
    with i before have "first_unsettled (chain w) = Some ?i" by (intro first_unsettled_at)
    then have tf: "tick_first w = tick ?i w" by (simp add: tick_first_def)
    have "length (trace (tick ?i w)) = Suc ?t"
      using queue_inv_tick_progress [OF inv, of ?i] i by simp
    moreover have "Suc ?t \<le> 3 * length (chain w)" using t False by simp
    ultimately show ?thesis
      unfolding tf using queue_inv_tick [OF inv] by (simp add: ops_of_tick)
  qed
qed

lemma length_chain_ops: "length (chain w) = length (ops_of w)"
  by (simp add: ops_of_def)

lemma funpow_tick_first:
  assumes "queue_inv w"
  shows "queue_inv ((tick_first ^^ j) w)
       \<and> length (trace ((tick_first ^^ j) w)) = min (3 * length (chain w)) (length (trace w) + j)
       \<and> ops_of ((tick_first ^^ j) w) = ops_of w"
proof (induction j)
  case 0
  from assms have "length (trace w) \<le> 3 * length (chain w)"
    by (simp add: queue_inv_def Let_def length_chain_ops)
  with assms show ?case by simp
next
  case (Suc j)
  let ?w = "(tick_first ^^ j) w"
  from Suc have inv: "queue_inv ?w" and ops: "ops_of ?w = ops_of w"
    and t: "length (trace ?w) = min (3 * length (chain w)) (length (trace w) + j)"
    by simp_all
  have len: "length (chain ?w) = length (chain w)"
    using ops by (simp add: length_chain_ops)
  show ?case
    using tick_first_progress [OF inv] ops t len by simp
qed

lemma queue_inv_drain:
  assumes "queue_inv w"
  shows "queue_inv (drain w) \<and> length (trace (drain w)) = 3 * length (chain w)
       \<and> ops_of (drain w) = ops_of w"
  using funpow_tick_first [OF assms, of "3 * length (chain w)"] by (simp add: drain_def)

lemma queue_inv_fresh: "chain w = [] \<Longrightarrow> trace w = [] \<Longrightarrow> no_faults (disk w) \<Longrightarrow> queue_inv w"
  by (simp add: queue_inv_def ops_of_def)

lemma tick_pending_poisoned:
  assumes "quiescent w" and "chain w \<noteq> []" and "wstatus (last (chain w)) = Rejected e"
  shows "tick_first (w\<lparr>chain := chain w @ [\<lparr>wpath = p, wvalue = v, wstatus = Pending\<rparr>]\<rparr>)
       = w\<lparr>chain := chain w @ [\<lparr>wpath = p, wvalue = v, wstatus = Rejected e\<rparr>]\<rparr>"
proof -
  let ?n = "\<lparr>wpath = p, wvalue = v, wstatus = Pending\<rparr>"
  have fu: "first_unsettled (chain w @ [?n]) = Some (length (chain w))"
    using assms(1) by (intro first_unsettled_last) (simp_all add: settled_def quiescent_def)
  have "pred_status (chain w @ [?n]) (length (chain w)) = Rejected e"
    using assms(2,3) by (cases "chain w" rule: rev_cases) (simp_all add: pred_status_def nth_append)
  then show ?thesis
    by (simp add: tick_first_def fu tick_def Let_def set_status_def)
qed

lemma await_write_poisoned:
  assumes "quiescent w" and "chain w \<noteq> []" and "wstatus (last (chain w)) = Rejected e"
  shows "await_write w p v
       = (w\<lparr>chain := chain w @ [\<lparr>wpath = p, wvalue = v, wstatus = Rejected e\<rparr>]\<rparr>, Inl e)"
proof -
  let ?w' = "w\<lparr>chain := chain w @ [\<lparr>wpath = p, wvalue = v, wstatus = Rejected e\<rparr>]\<rparr>"
  have q: "quiescent ?w'"
    using assms(1) by (simp add: quiescent_def settled_def)
  then have stay: "tick_first ?w' = ?w'" by (rule tick_first_quiescent)
  have "tick_first (writeJsonAtomic w p v) = ?w'"
    unfolding writeJsonAtomic_def by (rule tick_pending_poisoned [OF assms])
  then have "tick_first (tick_first (tick_first (writeJsonAtomic w p v))) = ?w'"
    using stay by simp
  then have "drain (writeJsonAtomic w p v) = ?w'"
    using q by (intro drain_three [where k = "length (chain w)" and k' = "length (chain w)"])
       (simp_all add: writeJsonAtomic_def)
  then show ?thesis
    by (simp add: await_write_def Let_def outcome_def)
qed

lemma readJson_written:
  assumes "wf_json v" and "fault (disk w) (ReadFile p) = None"
  shows "readJson (disk (written w p v)) p fb = Inr v"
  using assms by (simp add: readJson_def fs_readFile_def written_def JSON_parse_stringify)

text \<open>
  C5.  \<open>readJson\<close> answers the fallback when the file does not exist (the read fails
  with ENOENT) and when its contents do not parse; it throws in neither case.  Every
  other failure of the read (a permission error, say) reaches the caller as it is, and a
  file that parses is returned as parsed.
\<close>

theorem readJson_fallback:
  "(fault s (ReadFile p) = None \<and> files s p = None \<longrightarrow> readJson s p fb = Inr fb)
   \<and> (fs_readFile s p = Inl ENOENT \<longrightarrow> readJson s p fb = Inr fb)
   \<and> (fs_readFile s p = Inr raw \<and> JSON_parse raw = None \<longrightarrow> readJson s p fb = Inr fb)
   \<and> (fs_readFile s p = Inl e \<and> e \<noteq> ENOENT \<longrightarrow> readJson s p fb = Inl (IOError e))
   \<and> (fs_readFile s p = Inr raw \<and> JSON_parse raw = Some v \<longrightarrow> readJson s p fb = Inr v)"
  by (simp add: readJson_def fs_readFile_def)

theorem readJson_fallback_witness:
  "readJson empty_disk SITE_JSON_PATH JNull = Inr JNull
   \<and> readJson (empty_disk\<lparr>files := [SITE_JSON_PATH \<mapsto> js ''{oops'']\<rparr>) SITE_JSON_PATH (JArr []) = Inr (JArr [])
   \<and> readJson (empty_disk\<lparr>fault := (\<lambda>c. Some EACCES)\<rparr>) SITE_JSON_PATH JNull = Inl (IOError EACCES)
   \<and> readJson (empty_disk\<lparr>files := [SITE_JSON_PATH \<mapsto> js ''[1]'']\<rparr>) SITE_JSON_PATH JNull = Inr (JArr [JNum 1])"
proof -
  have bad: "JSON_parse (js ''{oops'') = None" by code_simp
  have good: "JSON_parse (js ''[1]'') = Some (JArr [JNum 1])" by code_simp
  have 1: "fault empty_disk (ReadFile SITE_JSON_PATH) = None \<and> files empty_disk SITE_JSON_PATH = None"
    by (simp add: empty_disk_def)
  have 2: "fs_readFile (empty_disk\<lparr>files := [SITE_JSON_PATH \<mapsto> js ''{oops'']\<rparr>) SITE_JSON_PATH = Inr (js ''{oops'')
      \<and> JSON_parse (js ''{oops'') = None"
    using bad by (simp add: empty_disk_def fs_readFile_def)
  have 3: "fs_readFile (empty_disk\<lparr>fault := (\<lambda>c. Some EACCES)\<rparr>) SITE_JSON_PATH = Inl EACCES \<and> EACCES \<noteq> ENOENT"
    by (simp add: empty_disk_def fs_readFile_def)
  have 4: "fs_readFile (empty_disk\<lparr>files := [SITE_JSON_PATH \<mapsto> js ''[1]'']\<rparr>) SITE_JSON_PATH = Inr (js ''[1]'')
      \<and> JSON_parse (js ''[1]'') = Some (JArr [JNum 1])"
    using good by (simp add: empty_disk_def fs_readFile_def)
  note a = readJson_fallback [where s = empty_disk and p = SITE_JSON_PATH and fb = JNull,
      THEN conjunct1, THEN mp, OF 1]
  note b = readJson_fallback [where s = "empty_disk\<lparr>files := [SITE_JSON_PATH \<mapsto> js ''{oops'']\<rparr>"
        and p = SITE_JSON_PATH and raw = "js ''{oops''" and fb = "JArr []",
      THEN conjunct2, THEN conjunct2, THEN conjunct1, THEN mp, OF 2]
  note c = readJson_fallback [where s = "empty_disk\<lparr>fault := (\<lambda>c. Some EACCES)\<rparr>"
        and p = SITE_JSON_PATH and e = EACCES and fb = JNull,
      THEN conjunct2, THEN conjunct2, THEN conjunct2, THEN conjunct1, THEN mp, OF 3]
  note d = readJson_fallback [where s = "empty_disk\<lparr>files := [SITE_JSON_PATH \<mapsto> js ''[1]'']\<rparr>"
        and p = SITE_JSON_PATH and raw = "js ''[1]''" and v = "JArr [JNum 1]" and fb = JNull,
      THEN conjunct2, THEN conjunct2, THEN conjunct2, THEN conjunct2, THEN mp, OF 4]
  from a b c d show ?thesis by (intro conjI)
qed



lemma fresh_run_inv:
  assumes "chain w = []" and "trace w = []" and "no_faults (disk w)"
  shows "queue_inv (run evs w)" and "ops_of (run evs w) = enqueued evs"
proof -
  have "queue_inv w" using assms by (rule queue_inv_fresh)
  then show "queue_inv (run evs w)" by (rule queue_inv_run)
  have "ops_of w = []" using assms(1) by (simp add: ops_of_def)
  then show "ops_of (run evs w) = enqueued evs"
    by (simp add: ops_of_run)
qed

lemma queue_inv_prefix: "queue_inv w \<Longrightarrow> prefix (trace w) (calls_from 0 (ops_of w))"
proof -
  assume "queue_inv w"
  then have "trace w = take (length (trace w)) (calls_from 0 (ops_of w))"
    by (simp add: queue_inv_def Let_def)
  then show ?thesis by (metis take_is_prefix)
qed

lemma drained_facts:
  assumes "queue_inv w"
  shows "trace (drain w) = calls_from 0 (ops_of w)"
    and "ops_of (drain w) = ops_of w"
    and "\<forall>n \<in> set (chain (drain w)). wstatus n = Fulfilled"
    and "no_faults (disk (drain w))"
    and "ops_of w \<noteq> [] \<Longrightarrow>
           files (disk (drain w)) (fst (last (ops_of w)))
             = Some (JSON_stringify (snd (last (ops_of w))) @ [0x0A])"
proof -
  let ?w = "drain w"
  from queue_inv_drain [OF assms] have inv: "queue_inv ?w"
    and t: "length (trace ?w) = 3 * length (chain w)" and ops: "ops_of ?w = ops_of w"
    by simp_all
  have len: "length (chain ?w) = length (chain w)"
    using ops by (simp add: length_chain_ops)
  show "ops_of ?w = ops_of w" by (rule ops)
  from inv have "trace ?w = take (length (trace ?w)) (calls_from 0 (ops_of ?w))"
    by (simp add: queue_inv_def Let_def)
  then show "trace ?w = calls_from 0 (ops_of w)"
    using t ops by (simp add: length_calls_from length_chain_ops)
  show "\<forall>n \<in> set (chain ?w). wstatus n = Fulfilled"
    using inv t len by (intro queue_inv_all_done) simp_all
  show "no_faults (disk ?w)"
    using inv by (simp add: queue_inv_def Let_def)
  show "files (disk ?w) (fst (last (ops_of w))) = Some (JSON_stringify (snd (last (ops_of w))) @ [0x0A])"
    if ne: "ops_of w \<noteq> []"
  proof -
    have n: "0 < length (chain w)" using ne by (simp add: ops_of_def)
    have "length (trace ?w) mod 3 = 0" "0 < length (trace ?w)"
      "length (trace ?w) div 3 - 1 = length (ops_of w) - 1"
      using t n by (simp_all add: length_chain_ops)
    with inv ops have "files (disk ?w) (fst (ops_of w ! (length (ops_of w) - 1)))
        = Some (JSON_stringify (snd (ops_of w ! (length (ops_of w) - 1))) @ [0x0A])"
      by (simp add: queue_inv_def Let_def)
    then show ?thesis using ne by (simp add: last_conv_nth)
  qed
qed

lemma readJson_file:
  assumes "no_faults s" and "files s p = Some (JSON_stringify v @ [0x0A])" and "wf_json v"
  shows "readJson s p fb = Inr v"
  using assms by (simp add: readJson_def fs_readFile_def no_faults_def JSON_parse_stringify)

text \<open>
  C3.  Start from a fresh process on a file system that does not fail, and let any
  number of callers enqueue writes while the I/O of the queue completes in any
  interleaving (\<open>evs\<close> is an arbitrary list of \<open>Enqueue\<close> and \<open>Tick\<close> events, a
  \<open>Tick\<close> for any node of the chain).  At every moment the calls made so far are a
  prefix of the calls of the enqueued writes taken one write after the other in enqueue
  order: mkdir, writeFile, rename of the first, then of the second, and so on.  Once
  the queue has run out, every one of the enqueued writes is fulfilled, nothing else is in
  the chain, and the file of the last write holds the text of its value, which reads
  back as that value.
\<close>

theorem write_queue_serialises:
  assumes "chain w = []" and "trace w = []" and "no_faults (disk w)"
  shows "prefix (trace (run evs w)) (calls_from 0 (enqueued evs))
       \<and> trace (drain (run evs w)) = calls_from 0 (enqueued evs)
       \<and> map (\<lambda>n. (wpath n, wvalue n)) (chain (drain (run evs w))) = enqueued evs
       \<and> (\<forall>n \<in> set (chain (drain (run evs w))). wstatus n = Fulfilled)
       \<and> (enqueued evs \<noteq> [] \<longrightarrow>
            files (disk (drain (run evs w))) (fst (last (enqueued evs)))
              = Some (JSON_stringify (snd (last (enqueued evs))) @ [0x0A])
            \<and> (wf_json (snd (last (enqueued evs))) \<longrightarrow>
                 readJson (disk (drain (run evs w))) (fst (last (enqueued evs))) fb
                   = Inr (snd (last (enqueued evs)))))"
proof -
  note inv = fresh_run_inv [OF assms, of evs]
  note dr = drained_facts [OF inv(1), unfolded inv(2)]
  have "prefix (trace (run evs w)) (calls_from 0 (enqueued evs))"
    using queue_inv_prefix [OF inv(1)] by (simp add: inv(2))
  moreover have "map (\<lambda>n. (wpath n, wvalue n)) (chain (drain (run evs w))) = enqueued evs"
    using dr(2) by (simp add: ops_of_def)
  moreover have "readJson (disk (drain (run evs w))) (fst (last (enqueued evs))) fb
                   = Inr (snd (last (enqueued evs)))"
    if "enqueued evs \<noteq> []" "wf_json (snd (last (enqueued evs)))"
    using that dr(4) dr(5) by (intro readJson_file) simp_all
  ultimately show ?thesis
    using dr(1) dr(3) dr(5) by blast
qed

theorem write_queue_serialises_witness:
  "trace (drain (run three_writers (boot empty_disk)))
     = calls_of_op 0 (SITE_JSON_PATH, JNum 0) @ calls_of_op 1 (SITE_JSON_PATH, JNum 1)
       @ calls_of_op 2 (SITE_JSON_PATH, JNum 2)
   \<and> map wstatus (chain (drain (run three_writers (boot empty_disk)))) = [Fulfilled, Fulfilled, Fulfilled]
   \<and> readJson (disk (drain (run three_writers (boot empty_disk)))) SITE_JSON_PATH JNull = Inr (JNum 2)"
proof -
  have fresh: "chain (boot empty_disk) = []" "trace (boot empty_disk) = []"
    "no_faults (disk (boot empty_disk))"
    by (simp_all add: boot_def empty_disk_def no_faults_def)
  have enq: "enqueued three_writers
      = [(SITE_JSON_PATH, JNum 0), (SITE_JSON_PATH, JNum 1), (SITE_JSON_PATH, JNum 2)]"
    by (simp add: three_writers_def enqueued_def)
  note inst = write_queue_serialises [OF fresh, of three_writers JNull, unfolded enq]
  from inst have a: "trace (drain (run three_writers (boot empty_disk)))
     = calls_of_op 0 (SITE_JSON_PATH, JNum 0) @ calls_of_op 1 (SITE_JSON_PATH, JNum 1)
       @ calls_of_op 2 (SITE_JSON_PATH, JNum 2)"
    by (simp add: eval_nat_numeral)
  from inst have "map (\<lambda>n. (wpath n, wvalue n)) (chain (drain (run three_writers (boot empty_disk))))
      = [(SITE_JSON_PATH, JNum 0), (SITE_JSON_PATH, JNum 1), (SITE_JSON_PATH, JNum 2)]"
    and all: "\<forall>n \<in> set (chain (drain (run three_writers (boot empty_disk)))). wstatus n = Fulfilled"
    by blast+
  then obtain n0 n1 n2 where "chain (drain (run three_writers (boot empty_disk))) = [n0, n1, n2]"
    by auto
  with all have b: "map wstatus (chain (drain (run three_writers (boot empty_disk))))
      = [Fulfilled, Fulfilled, Fulfilled]"
    by simp
  from inst have c: "readJson (disk (drain (run three_writers (boot empty_disk)))) SITE_JSON_PATH JNull
      = Inr (JNum 2)"
    by simp
  from a b c show ?thesis by (intro conjI)
qed




text \<open>
  C1 fails on the code.  \<open>writeQueue.then(callback)\<close> has no rejection handler, so a
  rejected \<open>writeQueue\<close> stays rejected: a write enqueued after a failed one is never
  executed (the disk and the trace do not change) and its caller is handed the error of
  the earlier, unrelated write.  The witness is a submission log whose temporary file
  cannot be written, followed by a save of the site document that would have gone
  through on its own.
\<close>

theorem write_queue_poisoned:
  assumes "quiescent w" and "chain w \<noteq> []" and "wstatus (last (chain w)) = Rejected e"
  shows "await_write w p v
       = (w\<lparr>chain := chain w @ [\<lparr>wpath = p, wvalue = v, wstatus = Rejected e\<rparr>]\<rparr>, Inl e)"
  using assms by (rule await_write_poisoned)

lemma after_failed_append_eval:
  "after_failed_append =
     \<lparr>disk = locked_tmp_disk,
      chain = [\<lparr>wpath = SUBMISSIONS_JSON_PATH, wvalue = JArr [JNum 1], wstatus = Rejected (IOError EACCES)\<rparr>],
      trace = [(0, Mkdir (dirname SUBMISSIONS_JSON_PATH)),
               (0, WriteFile (SUBMISSIONS_JSON_PATH @ js ''.tmp''))]\<rparr>
   \<and> snd (await_write (boot locked_tmp_disk) SUBMISSIONS_JSON_PATH (JArr [JNum 1])) = Inl (IOError EACCES)"
  apply (simp add: after_failed_append_def await_write_def drain_def writeJsonAtomic_def boot_def Let_def eval_nat_numeral)
  apply (simp add: tick_first_def first_unsettled_def settled_def tick_def pred_status_def after_call_def
      set_status_def fs_mkdir_def fs_writeFile_def locked_tmp_disk_def Let_def outcome_def)
  done

theorem write_queue_poisoned_witness:
  "snd (await_write (boot locked_tmp_disk) SUBMISSIONS_JSON_PATH (JArr [JNum 1])) = Inl (IOError EACCES)
   \<and> can_write (disk after_failed_append) SITE_JSON_PATH
   \<and> await_write after_failed_append SITE_JSON_PATH sample_document
       = (after_failed_append
            \<lparr>chain := chain after_failed_append
               @ [\<lparr>wpath = SITE_JSON_PATH, wvalue = sample_document,
                    wstatus = Rejected (IOError EACCES)\<rparr>]\<rparr>,
          Inl (IOError EACCES))
   \<and> snd (await_write (boot locked_tmp_disk) SITE_JSON_PATH sample_document) = Inr ()"
proof -
  note ev = after_failed_append_eval
  have q: "quiescent after_failed_append" and ne: "chain after_failed_append \<noteq> []"
    and last: "wstatus (last (chain after_failed_append)) = Rejected (IOError EACCES)"
    by (simp_all add: ev quiescent_def settled_def)
  have cw: "can_write locked_tmp_disk SITE_JSON_PATH"
    by (simp add: can_write_def locked_tmp_disk_def SITE_JSON_PATH_def SUBMISSIONS_JSON_PATH_def
        DATA_DIR_def js_def)
  have "idle (boot locked_tmp_disk)" by (simp add: idle_def boot_def)
  moreover have "can_write (disk (boot locked_tmp_disk)) SITE_JSON_PATH"
    using cw by (simp add: boot_def)
  ultimately have alone: "snd (await_write (boot locked_tmp_disk) SITE_JSON_PATH sample_document) = Inr ()"
    by (simp add: await_write_idle)
  have cw': "can_write (disk after_failed_append) SITE_JSON_PATH"
    using cw by (simp add: ev)
  from ev have first: "snd (await_write (boot locked_tmp_disk) SUBMISSIONS_JSON_PATH (JArr [JNum 1]))
      = Inl (IOError EACCES)" by (rule conjunct2)
  note second = write_queue_poisoned [OF q ne last, of SITE_JSON_PATH sample_document]
  from first cw' second alone show ?thesis by (intro conjI)
qed

section \<open>What JSON.parse returns is well formed\<close>

lemma obj_set_keys: "fst ` set (obj_set kvs k v) = insert k (fst ` set kvs)"
proof (induction kvs)
  case Nil
  show ?case by simp
next
  case (Cons kv kvs)
  obtain k' v' where kv: "kv = (k', v')" by (cases kv)
  show ?case
    using Cons by (cases "k' = k") (auto simp: kv)
qed

lemma set_obj_set: "set (obj_set kvs k v) \<subseteq> insert (k, v) (set kvs)"
proof (induction kvs)
  case Nil
  show ?case by simp
next
  case (Cons kv kvs)
  obtain k' v' where kv: "kv = (k', v')" by (cases kv)
  show ?case
    using Cons by (cases "k' = k") (auto simp: kv)
qed

lemma obj_set_distinct: "distinct (map fst kvs) \<Longrightarrow> distinct (map fst (obj_set kvs k v))"
proof (induction kvs)
  case Nil
  show ?case by simp
next
  case (Cons kv kvs)
  obtain k' v' where kv: "kv = (k', v')" by (cases kv)
  show ?case
  proof (cases "k' = k")
    case True
    with Cons.prems show ?thesis by (simp add: kv)
  next
    case False
    have "k' \<notin> fst ` set (obj_set kvs k v)"
      using Cons.prems False by (simp add: obj_set_keys kv)
    with Cons False show ?thesis by (simp add: kv)
  qed
qed

lemma obj_set_values:
  "\<forall>kv \<in> set kvs. P (snd kv) \<Longrightarrow> P v \<Longrightarrow> \<forall>kv \<in> set (obj_set kvs k v). P (snd kv)"
  using set_obj_set [of kvs k v] by auto

lemma foldl_obj_set_wf:
  "distinct (map fst acc) \<Longrightarrow> \<forall>kv \<in> set acc. wf_json (snd kv) \<Longrightarrow> \<forall>kv \<in> set ms. wf_json (snd kv) \<Longrightarrow>
     distinct (map fst (foldl (\<lambda>obj kv. obj_set obj (fst kv) (snd kv)) acc ms))
     \<and> (\<forall>kv \<in> set (foldl (\<lambda>obj kv. obj_set obj (fst kv) (snd kv)) acc ms). wf_json (snd kv))"
proof (induction ms arbitrary: acc)
  case Nil
  then show ?case by simp
next
  case (Cons m ms)
  have "distinct (map fst (obj_set acc (fst m) (snd m)))"
    using Cons.prems(1) by (rule obj_set_distinct)
  moreover have "\<forall>kv \<in> set (obj_set acc (fst m) (snd m)). wf_json (snd kv)"
    using Cons.prems(2,3) by (intro obj_set_values) simp_all
  ultimately show ?case
    using Cons.IH [of "obj_set acc (fst m) (snd m)"] Cons.prems(3) by simp
qed

lemma wf_obj_of_members: "\<forall>kv \<in> set ms. wf_json (snd kv) \<Longrightarrow> wf_json (obj_of_members ms)"
  using foldl_obj_set_wf [of "[]" ms] by (simp add: obj_of_members_def)

lemma parse_number_wf:
  assumes "parse_number s = Some (v, r)"
  shows "wf_json v"
proof -
  define X where "X = (case s of [] \<Rightarrow> None
        | c # cs \<Rightarrow> if c = 0x2D then map_option (\<lambda>(n, r). (- int n, r)) (parse_nat cs)
                    else map_option (\<lambda>(n, r). (int n, r)) (parse_nat s))"
  have eq: "parse_number s = (case X of None \<Rightarrow> None
      | Some (i, r) \<Rightarrow> if float_follows r then None else Some (JNum i, r))"
    unfolding parse_number_def X_def ..
  show ?thesis
  proof (cases X)
    case None
    with assms eq show ?thesis by simp
  next
    case (Some a)
    obtain i r' where "a = (i, r')" by (cases a)
    with assms eq Some have "v = JNum i" by (cases "float_follows r'") simp_all
    then show ?thesis by simp
  qed
qed

lemma parse_literal_wf:
  assumes "parse_literal s = Some (v, r)"
  shows "wf_json v"
proof -
  consider "v = JBool True" | "v = JBool False" | "v = JNull" | "parse_number s = Some (v, r)"
    using assms unfolding parse_literal_def
    by (cases "take 4 s = js ''true''"; cases "take 5 s = js ''false''"; cases "take 4 s = js ''null''")
       simp_all
  then show ?thesis by cases (simp_all add: parse_number_wf)
qed

lemma cons_result_Some: "cons_result x res = Some (ys, r) \<Longrightarrow> \<exists>xs. res = Some (xs, r) \<and> ys = x # xs"
  by (cases res) (auto simp: cons_result_def)

lemma parse_value_Suc_Some:
  assumes "parse_value (Suc f) s = Some (v, r)"
  shows "(\<exists>t. v = JStr t) \<or> v = JArr [] \<or> v = JObj []
       \<or> (\<exists>cs xs. parse_elems f cs = Some (xs, r) \<and> v = JArr xs)
       \<or> (\<exists>cs ms. parse_members f cs = Some (ms, r) \<and> v = obj_of_members ms)
       \<or> (\<exists>t. parse_literal t = Some (v, r))"
proof (cases "skip_ws s")
  case Nil
  with assms show ?thesis by simp
next
  case (Cons c cs)
  show ?thesis
  proof (cases "c = 0x22")
    case True
    with assms Cons have "map_option (\<lambda>(t, r). (JStr t, r)) (parse_str cs) = Some (v, r)" by simp
    then show ?thesis by (cases "parse_str cs") auto
  next
    case notstr: False
    show ?thesis
    proof (cases "c = 0x5B")
      case True
      show ?thesis
      proof (cases "take 1 (skip_ws cs) = [0x5D]")
        case True
        with assms Cons \<open>c = 0x5B\<close> show ?thesis by simp
      next
        case False
        with assms Cons \<open>c = 0x5B\<close>
        have "map_option (\<lambda>(xs, r). (JArr xs, r)) (parse_elems f cs) = Some (v, r)" by simp
        then show ?thesis by (cases "parse_elems f cs") auto
      qed
    next
      case notarr: False
      show ?thesis
      proof (cases "c = 0x7B")
        case True
        show ?thesis
        proof (cases "take 1 (skip_ws cs) = [0x7D]")
          case True
          with assms Cons \<open>c = 0x7B\<close> show ?thesis by simp
        next
          case False
          with assms Cons \<open>c = 0x7B\<close>
          have "map_option (\<lambda>(ms, r). (obj_of_members ms, r)) (parse_members f cs) = Some (v, r)"
            by simp
          then show ?thesis by (cases "parse_members f cs") auto
        qed
      next
        case False
        with assms Cons notstr notarr have "parse_literal (c # cs) = Some (v, r)" by simp
        then show ?thesis by blast
      qed
    qed
  qed
qed

lemma parse_elems_Suc_Some:
  assumes "parse_elems (Suc f) s = Some (xs, r)"
  obtains (single) x r1 where "parse_value f s = Some (x, r1)" "xs = [x]"
    | (more) x r1 cs ys where "parse_value f s = Some (x, r1)"
        "parse_elems f cs = Some (ys, r)" "xs = x # ys"
proof (cases "parse_value f s")
  case None
  with assms show ?thesis by simp
next
  case (Some a)
  obtain x r1 where a: "a = (x, r1)" by (cases a)
  have pv: "parse_value f s = Some (x, r1)" using Some a by simp
  have step: "(case skip_ws r1 of [] \<Rightarrow> None
      | c # cs \<Rightarrow> if c = 0x2C then cons_result x (parse_elems f cs)
                  else if c = 0x5D then Some ([x], cs) else None) = Some (xs, r)"
    using assms pv by simp
  show ?thesis
  proof (cases "skip_ws r1")
    case Nil
    with step show ?thesis by simp
  next
    case (Cons c cs)
    show ?thesis
    proof (cases "c = 0x2C")
      case True
      with step Cons have cr: "cons_result x (parse_elems f cs) = Some (xs, r)" by simp
      from cons_result_Some [OF cr] obtain ys where "parse_elems f cs = Some (ys, r)" "xs = x # ys"
        by (elim exE conjE)
      with pv show ?thesis by (rule more)
    next
      case False
      with step Cons have "xs = [x]" by (cases "c = 0x5D") simp_all
      with pv show ?thesis by (rule single)
    qed
  qed
qed

lemma parse_members_Suc_Some:
  assumes "parse_members (Suc f) s = Some (ms, r)"
  obtains (single) k v s3 s4 where "parse_value f s3 = Some (v, s4)" "ms = [(k, v)]"
    | (more) k v s3 s4 cs ys where "parse_value f s3 = Some (v, s4)"
        "parse_members f cs = Some (ys, r)" "ms = (k, v) # ys"
proof (cases "skip_ws s")
  case Nil
  with assms show ?thesis by simp
next
  case s0: (Cons q s1)
  have q: "q = 0x22"
    using assms s0 by (cases "q = 0x22") simp_all
  have step1: "(case parse_str s1 of None \<Rightarrow> None
      | Some (k, s2) \<Rightarrow>
          (case skip_ws s2 of [] \<Rightarrow> None
           | colon # s3 \<Rightarrow>
               if colon \<noteq> 0x3A then None
               else (case parse_value f s3 of None \<Rightarrow> None
                     | Some (v, s4) \<Rightarrow>
                         (case skip_ws s4 of [] \<Rightarrow> None
                          | c # cs \<Rightarrow>
                              if c = 0x2C then cons_result (k, v) (parse_members f cs)
                              else if c = 0x7D then Some ([(k, v)], cs) else None)))) = Some (ms, r)"
    using assms s0 q by simp
  show ?thesis
  proof (cases "parse_str s1")
    case None
    with step1 show ?thesis by simp
  next
    case (Some a)
    obtain k s2 where a: "a = (k, s2)" by (cases a)
    have step2: "(case skip_ws s2 of [] \<Rightarrow> None
           | colon # s3 \<Rightarrow>
               if colon \<noteq> 0x3A then None
               else (case parse_value f s3 of None \<Rightarrow> None
                     | Some (v, s4) \<Rightarrow>
                         (case skip_ws s4 of [] \<Rightarrow> None
                          | c # cs \<Rightarrow>
                              if c = 0x2C then cons_result (k, v) (parse_members f cs)
                              else if c = 0x7D then Some ([(k, v)], cs) else None))) = Some (ms, r)"
      using step1 Some a by simp
    show ?thesis
    proof (cases "skip_ws s2")
      case Nil
      with step2 show ?thesis by simp
    next
      case s2: (Cons colon s3)
      have colon: "colon = 0x3A"
        using step2 s2 by (cases "colon = 0x3A") simp_all
      have step3: "(case parse_value f s3 of None \<Rightarrow> None
                     | Some (v, s4) \<Rightarrow>
                         (case skip_ws s4 of [] \<Rightarrow> None
                          | c # cs \<Rightarrow>
                              if c = 0x2C then cons_result (k, v) (parse_members f cs)
                              else if c = 0x7D then Some ([(k, v)], cs) else None)) = Some (ms, r)"
        using step2 s2 colon by simp
      show ?thesis
      proof (cases "parse_value f s3")
        case None
        with step3 show ?thesis by simp
      next
        case pv: (Some b)
        obtain v s4 where b: "b = (v, s4)" by (cases b)
        have pv': "parse_value f s3 = Some (v, s4)" using pv b by simp
        have step4: "(case skip_ws s4 of [] \<Rightarrow> None
                          | c # cs \<Rightarrow>
                              if c = 0x2C then cons_result (k, v) (parse_members f cs)
                              else if c = 0x7D then Some ([(k, v)], cs) else None) = Some (ms, r)"
          using step3 pv' by simp
        show ?thesis
        proof (cases "skip_ws s4")
          case Nil
          with step4 show ?thesis by simp
        next
          case s4: (Cons c cs)
          show ?thesis
          proof (cases "c = 0x2C")
            case True
            with step4 s4 have cr: "cons_result (k, v) (parse_members f cs) = Some (ms, r)"
              by simp
            from cons_result_Some [OF cr] obtain ys
              where "parse_members f cs = Some (ys, r)" "ms = (k, v) # ys"
              by (elim exE conjE)
            with pv' show ?thesis by (rule more)
          next
            case False
            with step4 s4 have "ms = [(k, v)]" by (cases "c = 0x7D") simp_all
            with pv' show ?thesis by (rule single)
          qed
        qed
      qed
    qed
  qed
qed

lemma parse_wf:
  "(\<forall>s v r. parse_value f s = Some (v, r) \<longrightarrow> wf_json v)
   \<and> (\<forall>s xs r. parse_elems f s = Some (xs, r) \<longrightarrow> (\<forall>x \<in> set xs. wf_json x))
   \<and> (\<forall>s ms r. parse_members f s = Some (ms, r) \<longrightarrow> (\<forall>kv \<in> set ms. wf_json (snd kv)))"
proof (induction f)
  case 0
  show ?case by simp
next
  case (Suc f)
  then have v: "\<And>s v r. parse_value f s = Some (v, r) \<Longrightarrow> wf_json v"
    and e: "\<And>s xs r. parse_elems f s = Some (xs, r) \<Longrightarrow> \<forall>x \<in> set xs. wf_json x"
    and m: "\<And>s ms r. parse_members f s = Some (ms, r) \<Longrightarrow> \<forall>kv \<in> set ms. wf_json (snd kv)"
    by blast+
  have "wf_json v" if "parse_value (Suc f) s = Some (v, r)" for s v r
    using parse_value_Suc_Some [OF that]
  proof (elim disjE exE conjE)
    fix cs xs assume "parse_elems f cs = Some (xs, r)" "v = JArr xs"
    then show ?thesis using e by simp
  next
    fix cs ms assume "parse_members f cs = Some (ms, r)" "v = obj_of_members ms"
    then show ?thesis using m wf_obj_of_members by simp
  next
    fix t assume "parse_literal t = Some (v, r)"
    then show ?thesis by (rule parse_literal_wf)
  qed simp_all
  moreover have "\<forall>x \<in> set xs. wf_json x" if "parse_elems (Suc f) s = Some (xs, r)" for s xs r
    using that
  proof (cases rule: parse_elems_Suc_Some)
    case (single x r1)
    then show ?thesis using v by simp
  next
    case (more x r1 cs ys)
    then show ?thesis using v e by simp
  qed
  moreover have "\<forall>kv \<in> set ms. wf_json (snd kv)" if "parse_members (Suc f) s = Some (ms, r)" for s ms r
    using that
  proof (cases rule: parse_members_Suc_Some)
    case (single k v' s3 s4)
    then show ?thesis using v by simp
  next
    case (more k v' s3 s4 cs ys)
    then show ?thesis using v m by simp
  qed
  ultimately show ?case by blast
qed

lemma JSON_parse_wf: "JSON_parse s = Some v \<Longrightarrow> wf_json v"
proof -
  assume a: "JSON_parse s = Some v"
  then obtain r where "parse_value (Suc (length s)) s = Some (v, r)"
    by (cases "parse_value (Suc (length s)) s") (auto simp: JSON_parse_def split: if_splits)
  then show ?thesis using parse_wf by blast
qed

section \<open>The submission log\<close>

lemma readJson_total:
  "fault s (ReadFile p) = None \<Longrightarrow> \<exists>v. readJson s p fb = Inr v \<and> (wf_json fb \<longrightarrow> wf_json v)"
  by (auto simp: readJson_def fs_readFile_def JSON_parse_wf split: option.splits)

lemma log_of_wf: "x \<in> set (log_of s) \<Longrightarrow> wf_json x"
proof -
  assume x: "x \<in> set (log_of s)"
  show ?thesis
  proof (cases "readJson s SUBMISSIONS_JSON_PATH (JArr [])")
    case (Inl e)
    with x show ?thesis by (simp add: log_of_def)
  next
    case (Inr current)
    have "wf_json current"
    proof (cases "fs_readFile s SUBMISSIONS_JSON_PATH")
      case (Inl e)
      with Inr show ?thesis by (auto simp: readJson_def split: if_splits)
    next
      case (Inr raw)
      with \<open>readJson s SUBMISSIONS_JSON_PATH (JArr []) = Inr current\<close> show ?thesis
        by (cases "JSON_parse raw") (auto simp: readJson_def JSON_parse_wf)
    qed
    with x Inr show ?thesis
      by (cases current) (auto simp: log_of_def array_or_empty_def)
  qed
qed

lemma log_of_written:
  assumes "fault (disk w) (ReadFile SUBMISSIONS_JSON_PATH) = None" and "\<forall>x \<in> set xs. wf_json x"
  shows "log_of (disk (written w SUBMISSIONS_JSON_PATH (JArr xs))) = xs"
proof -
  have "wf_json (JArr xs)" using assms(2) by simp
  then have "readJson (disk (written w SUBMISSIONS_JSON_PATH (JArr xs))) SUBMISSIONS_JSON_PATH (JArr [])
      = Inr (JArr xs)"
    using assms(1) by (rule readJson_written)
  then show ?thesis by (simp add: log_of_def array_or_empty_def)
qed

lemma log_ready_written: "log_ready w \<Longrightarrow> log_ready (written w p v)"
  by (simp add: log_ready_def idle_written) (simp add: written_def can_write_def)

lemma readJson_log:
  assumes "fault s (ReadFile SUBMISSIONS_JSON_PATH) = None"
  shows "\<exists>current. readJson s SUBMISSIONS_JSON_PATH (JArr []) = Inr current
           \<and> array_or_empty current = log_of s"
proof -
  obtain v where "readJson s SUBMISSIONS_JSON_PATH (JArr []) = Inr v"
    using readJson_total [OF assms] by blast
  then show ?thesis by (simp add: log_of_def)
qed

lemma appendSubmission_ready:
  assumes "log_ready w" and "wf_json s"
  shows "appendSubmission w s
       = (written w SUBMISSIONS_JSON_PATH (JArr (keep_last 250 (log_of (disk w) @ [s]))), Inr ())"
proof -
  from assms(1) have i: "idle w" and c: "can_write (disk w) SUBMISSIONS_JSON_PATH"
    and r: "fault (disk w) (ReadFile SUBMISSIONS_JSON_PATH) = None"
    by (simp_all add: log_ready_def)
  obtain current where cur: "readJson (disk w) SUBMISSIONS_JSON_PATH (JArr []) = Inr current"
    "array_or_empty current = log_of (disk w)"
    using readJson_log [OF r] by blast
  show ?thesis
    by (simp add: appendSubmission_def cur Let_def await_write_idle [OF i c] keep_last_def)
qed

lemma keep_last_append: "keep_last n (keep_last n xs @ ys) = keep_last n (xs @ ys)"
proof (cases "length xs \<le> n")
  case True
  then show ?thesis by (simp add: keep_last_def)
next
  case False
  then have "length xs - n + n = length xs" by simp
  then have a: "length xs + length ys - (length xs - n + n) + (length xs - n)
      = length xs + length ys - n"
    using False by simp
  have b: "length xs + length ys - (length xs - n + n) - (length xs - (length xs - n))
      = length xs + length ys - n - length xs"
    using False by simp
  show ?thesis
    using False by (simp add: keep_last_def a b add.commute)
qed

lemma append_all_ready:
  assumes "log_ready w" and "\<forall>s \<in> set ss. wf_json s" and "ss \<noteq> []"
  shows "log_ready (append_all w ss)
       \<and> log_of (disk (append_all w ss)) = keep_last 250 (log_of (disk w) @ ss)"
  using assms
proof (induction ss arbitrary: w)
  case Nil
  then show ?case by simp
next
  case (Cons s ss)
  let ?next = "keep_last 250 (log_of (disk w) @ [s])"
  let ?w = "written w SUBMISSIONS_JSON_PATH (JArr ?next)"
  have step: "appendSubmission w s = (?w, Inr ())"
    using Cons.prems by (intro appendSubmission_ready) simp_all
  have ready: "log_ready ?w" using Cons.prems(1) by (rule log_ready_written)
  have "\<forall>x \<in> set ?next. wf_json x"
    using Cons.prems(2) log_of_wf [of _ "disk w"]
    by (auto simp: keep_last_def dest!: in_set_dropD)
  then have log: "log_of (disk ?w) = ?next"
    using Cons.prems(1) by (intro log_of_written) (simp_all add: log_ready_def)
  show ?case
  proof (cases "ss = []")
    case True
    with step ready log show ?thesis by simp
  next
    case False
    with Cons.IH [OF ready] Cons.prems(2)
    have "log_ready (append_all ?w ss)
        \<and> log_of (disk (append_all ?w ss)) = keep_last 250 (log_of (disk ?w) @ ss)"
      by simp
    then show ?thesis
      using step by (simp add: log keep_last_append)
  qed
qed

text \<open>
  C4.  Appends made one after the other (each awaited) on a queue that is idle, with a
  log file that can be read and written: after at least one append the stored log is
  the last 250 records of the previous log followed by the appended records, in their
  order.  So it never holds more than 250 records, what is dropped is dropped from the
  front only (the stored log is a suffix of all records), and 300 appends leave exactly
  the 250 most recently appended ones.
\<close>

theorem appendSubmission_bounded:
  assumes "log_ready w" and "\<forall>s \<in> set ss. wf_json s" and "ss \<noteq> []"
  shows "log_of (disk (append_all w ss)) = keep_last 250 (log_of (disk w) @ ss)
       \<and> length (log_of (disk (append_all w ss))) \<le> 250
       \<and> suffix (log_of (disk (append_all w ss))) (log_of (disk w) @ ss)
       \<and> (length ss = 300 \<longrightarrow>
            log_of (disk (append_all w ss)) = drop 50 ss
            \<and> length (log_of (disk (append_all w ss))) = 250)"
proof -
  have eq: "log_of (disk (append_all w ss)) = keep_last 250 (log_of (disk w) @ ss)"
    using append_all_ready [OF assms] by simp
  have "length (keep_last 250 (log_of (disk w) @ ss)) \<le> 250"
    by (simp add: keep_last_def)
  moreover have "suffix (keep_last 250 (log_of (disk w) @ ss)) (log_of (disk w) @ ss)"
    unfolding keep_last_def by (rule suffix_drop)
  moreover have "keep_last 250 (log_of (disk w) @ ss) = drop 50 ss" if "length ss = 300"
    using that by (simp add: keep_last_def)
  ultimately show ?thesis
    unfolding eq by auto
qed

theorem appendSubmission_bounded_witness:
  "log_of (disk (append_all (boot empty_disk) (map numbered [0..<300]))) = map numbered [50..<300]
   \<and> length (log_of (disk (append_all (boot empty_disk) (map numbered [0..<300])))) = 250"
proof -
  have ready: "log_ready (boot empty_disk)"
    by (simp add: log_ready_def idle_def boot_def empty_disk_def can_write_def)
  have wf: "\<forall>s \<in> set (map numbered [0..<300]). wf_json s"
    by (simp add: numbered_def js_def)
  have ne: "map numbered [0..<300] \<noteq> []" by simp
  have len: "length (map numbered [0..<300]) = 300" by simp
  from appendSubmission_bounded [OF ready wf ne] len
  have "log_of (disk (append_all (boot empty_disk) (map numbered [0..<300])))
          = drop 50 (map numbered [0..<300])
      \<and> length (log_of (disk (append_all (boot empty_disk) (map numbered [0..<300])))) = 250"
    by blast
  then show ?thesis by (simp add: drop_map)
qed

section \<open>Patching a record\<close>



lemma map_of_obj_set: "map_of (obj_set kvs k v) k' = (if k' = k then Some v else map_of kvs k')"
proof (induction kvs)
  case Nil
  show ?case by simp
next
  case (Cons kv kvs)
  obtain a b where kv: "kv = (a, b)" by (cases kv)
  show ?case using Cons by (cases "a = k") (auto simp: kv)
qed









section \<open>The site document\<close>

lemma js_eq_iff: "js a = js b \<longleftrightarrow> a = b"
proof -
  have "inj (\<lambda>c::char. (of_nat (of_char c :: nat) :: jchar))"
  proof (rule injI)
    fix x y :: char
    assume e: "(of_nat (of_char x :: nat) :: jchar) = of_nat (of_char y)"
    have bx: "(of_char x :: nat) < 65536" and by': "(of_char y :: nat) < 65536"
      by (rule less_trans [OF nat_of_char_less_256], simp)+
    have ux: "unat (of_nat (of_char x :: nat) :: jchar) = of_char x"
      using bx by (rule unat_small)
    have uy: "unat (of_nat (of_char y :: nat) :: jchar) = of_char y"
      using by' by (rule unat_small)
    have "(of_char x :: nat) = unat (of_nat (of_char x :: nat) :: jchar)"
      by (rule ux [symmetric])
    also have "\<dots> = unat (of_nat (of_char y :: nat) :: jchar)"
      by (rule arg_cong [OF e])
    also have "\<dots> = of_char y"
      by (rule uy)
    finally have "(of_char x :: nat) = of_char y" .
    then show "x = y" by simp
  qed
  then show ?thesis
    unfolding js_def by (simp add: inj_map_eq_map)
qed

lemma js_Nil_iff: "js s = [] \<longleftrightarrow> s = []"
  by (simp add: js_def)

lemma site_of_wf: "wf_json (site_of w)"
  by (auto simp: site_of_def readJson_def JSON_parse_wf split: sum.splits option.splits if_splits)

lemma site_ready_read: "site_ready w \<Longrightarrow> readJson (disk w) SITE_JSON_PATH JNull = Inr (site_of w)"
  using readJson_total [of "disk w" SITE_JSON_PATH JNull]
  by (auto simp: site_ready_def site_of_def)

lemma save_site_ready: "site_ready w \<Longrightarrow> save_site w site ok = (written w SITE_JSON_PATH site, Redirect ok)"
  by (simp add: save_site_def site_ready_def await_write_idle)

lemma site_of_written:
  "site_ready w \<Longrightarrow> wf_json v \<Longrightarrow> site_of (written w SITE_JSON_PATH v) = v"
  by (simp add: site_of_def site_ready_def readJson_written)

lemma site_ready_written: "site_ready w \<Longrightarrow> site_ready (written w p v)"
  by (simp add: site_ready_def idle_written) (simp add: written_def can_write_def)

lemma site_ready_boot: "site_ready (boot empty_disk)"
  by (simp add: site_ready_def idle_def boot_def empty_disk_def can_write_def)

lemma site_world_ready: "site_ready (site_world doc)"
  unfolding site_world_def by (intro site_ready_written site_ready_boot)

lemma site_of_site_world: "wf_json doc \<Longrightarrow> site_of (site_world doc) = doc"
  unfolding site_world_def by (intro site_of_written site_ready_boot)

lemma wf_obj_set:
  "wf_json (JObj kvs) \<Longrightarrow> wf_json v \<Longrightarrow> wf_json (JObj (obj_set kvs k v))"
  using obj_set_distinct [of kvs k v] obj_set_values [of kvs wf_json v k] by simp

lemma admin_request_ok:
  "assertCsrf (admin_request flds sid)" "truthy_opt (session_user (admin_request flds sid))"
  "param_id (admin_request flds sid) = sid"
  "k \<noteq> js ''_csrf'' \<Longrightarrow> field (admin_request flds sid) k = map_of flds k"
  by (auto simp: assertCsrf_def admin_request_def field_def strict_eq_def truthy_opt_def js_Nil_iff)

section \<open>The section route\<close>


lemma admin_section_saved:
  assumes r: "site_ready w" and d: "site_of w = JObj doc" and c: "assertCsrf req"
    and s: "param_id req \<in> set EDITABLE_SECTIONS"
    and p: "JSON_parse (string_or_empty (field req (js ''sectionJson''))) = Some (JObj payload)"
  shows "admin_section w req =
     (written w SITE_JSON_PATH
        (JObj (obj_set doc (param_id req)
           (JObj (if param_id req = js ''meta'' \<or> param_id req = js ''nav'' then payload
                  else obj_set payload (js ''enabled'') (JBool (parseEnabled (field req (js ''enabled'')))))))),
      Redirect (js ''/admin?page='' @ param_id req @ js ''&saved=1''))"
  using c s p
  by (simp add: admin_section_def Let_def site_ready_read [OF r] d object_like_def save_site_ready [OF r])

lemma section_stored:
  assumes r: "site_ready w" and d: "site_of w = JObj doc" and wf: "wf_json (JObj section)"
  shows "site_of (written w SITE_JSON_PATH (JObj (obj_set doc sid (JObj section))))
       = JObj (obj_set doc sid (JObj section))"
proof -
  have "wf_json (JObj doc)" using site_of_wf [of w] d by simp
  then have "wf_json (JObj (obj_set doc sid (JObj section)))"
    using wf by (rule wf_obj_set)
  then show ?thesis by (rule site_of_written [OF r])
qed



lemma section_request_facts:
  "assertCsrf (section_request sid payload flag)"
  "truthy_opt (session_user (section_request sid payload flag))"
  "param_id (section_request sid payload flag) = sid"
  "field (section_request sid payload flag) (js ''enabled'') = flag"
  "wf_json (JObj payload) \<Longrightarrow>
     JSON_parse (string_or_empty (field (section_request sid payload flag) (js ''sectionJson'')))
       = Some (JObj payload)"
proof -
  show "assertCsrf (section_request sid payload flag)"
    and "truthy_opt (session_user (section_request sid payload flag))"
    and "param_id (section_request sid payload flag) = sid"
    unfolding section_request_def by (rule admin_request_ok)+
  have ne: "js ''enabled'' \<noteq> js ''_csrf''" "js ''sectionJson'' \<noteq> js ''_csrf''"
    "js ''enabled'' \<noteq> js ''sectionJson''"
    by (simp_all add: js_eq_iff)
  show "field (section_request sid payload flag) (js ''enabled'') = flag"
    unfolding section_request_def using ne
    by (simp add: admin_request_ok(4) split: option.splits)
  assume "wf_json (JObj payload)"
  then have "JSON_parse (JSON_stringify (JObj payload) @ [0x0A]) = Some (JObj payload)"
    by (rule JSON_parse_stringify)
  then show "JSON_parse (string_or_empty (field (section_request sid payload flag) (js ''sectionJson'')))
       = Some (JObj payload)"
    unfolding section_request_def using ne
    by (simp add: admin_request_ok(4) string_or_empty_def)
qed

lemma sample_document_wf: "wf_json sample_document"
  by (simp add: sample_document_def js_eq_iff)

lemma hero_payload_wf: "wf_json (JObj hero_payload)"
  by (simp add: hero_payload_def js_eq_iff)

lemma sample_site:
  "site_of (site_world sample_document) =
     JObj [(js ''meta'', JObj [(js ''title'', JStr (js ''Portfolio''))]),
           (js ''hero'', JObj [(js ''enabled'', JBool True),
                                 (js ''titles'', JArr [JStr (js ''Dev''), JStr (js ''Ops'')]),
                                 (js ''count'', JNum (- 3))]),
           (js ''about'', JNull)]"
  using site_of_site_world [OF sample_document_wf] by (simp add: sample_document_def)


text \<open>
  C9 fails on the section route, which is not the whole-document replace.  The stored
  hero section has a field \<open>titles\<close>; a payload that does not mention \<open>titles\<close> is
  saved, and the field is gone: the route assigns the payload to the section, it does
  not merge it over the previous value.
\<close>

theorem section_route_replaces_section:
  "section_field (site_of (site_world sample_document)) (js ''hero'') (js ''titles'')
     = Some (JArr [JStr (js ''Dev''), JStr (js ''Ops'')])
   \<and> map_of hero_payload (js ''titles'') = None
   \<and> snd (post_admin_section (site_world sample_document) (section_request (js ''hero'') hero_payload None))
     = Redirect (js ''/admin?page=hero&saved=1'')
   \<and> section_field (site_of (fst (post_admin_section (site_world sample_document)
                         (section_request (js ''hero'') hero_payload None)))) (js ''hero'') (js ''titles'')
     = None"
proof -
  let ?w = "site_world sample_document"
  let ?req = "section_request (js ''hero'') hero_payload None"
  let ?section = "obj_set hero_payload (js ''enabled'') (JBool (parseEnabled None))"
  let ?doc = "[(js ''meta'', JObj [(js ''title'', JStr (js ''Portfolio''))]),
               (js ''hero'', JObj [(js ''enabled'', JBool True),
                                     (js ''titles'', JArr [JStr (js ''Dev''), JStr (js ''Ops'')]),
                                     (js ''count'', JNum (- 3))]),
               (js ''about'', JNull)]"
  have before: "section_field (site_of ?w) (js ''hero'') (js ''titles'')
      = Some (JArr [JStr (js ''Dev''), JStr (js ''Ops'')])"
    by (simp add: sample_site section_field_def js_eq_iff)
  have absent: "map_of hero_payload (js ''titles'') = None"
    by (simp add: hero_payload_def js_eq_iff)
  have "js ''hero'' \<in> set EDITABLE_SECTIONS"
    by (simp add: EDITABLE_SECTIONS_def)
  then have "admin_section ?w ?req =
      (written ?w SITE_JSON_PATH (JObj (obj_set ?doc (js ''hero'') (JObj ?section))),
       Redirect (js ''/admin?page='' @ js ''hero'' @ js ''&saved=1''))"
    using admin_section_saved [OF site_world_ready sample_site, where req = ?req and payload = hero_payload]
    by (simp add: section_request_facts(1-4) section_request_facts(5) [OF hero_payload_wf] js_eq_iff)
  then have run: "post_admin_section ?w ?req =
      (written ?w SITE_JSON_PATH (JObj (obj_set ?doc (js ''hero'') (JObj ?section))),
       Redirect (js ''/admin?page='' @ js ''hero'' @ js ''&saved=1''))"
    by (simp add: post_admin_section_def requireAuth_def section_request_facts)
  have "wf_json (JObj ?section)"
    using hero_payload_wf by (rule wf_obj_set) simp
  then have stored: "site_of (fst (post_admin_section ?w ?req)) = JObj (obj_set ?doc (js ''hero'') (JObj ?section))"
    using section_stored [OF site_world_ready sample_site] run by simp
  have after: "section_field (site_of (fst (post_admin_section ?w ?req))) (js ''hero'') (js ''titles'') = None"
    unfolding stored by (simp add: section_field_def map_of_obj_set absent js_eq_iff)
  have answer: "snd (post_admin_section ?w ?req) = Redirect (js ''/admin?page=hero&saved=1'')"
    using run by (simp add: js_def)
  from before absent answer after show ?thesis by (simp only: simp_thms)
qed

end
